theory Spec2Isabelle
  imports Main "HOL-Library.Word" "HOL-Library.Sublist"
begin

section \<open>Gateway: the comment tree builder (package domain, ToTree and dig)\<close>

text \<open>
  The Go struct \<^verbatim>\<open>Comment\<close> has a field of its own slice type, so it is a recursive
  datatype here. Ids are \<^verbatim>\<open>int64\<close>; the code only compares them, so they are integers.
\<close>

datatype Comment = Comment
  (Id: int) (Author: string) (Text: string) (PostedAt: int) (ReplyID: int)
  (Replies: "Comment list")

text \<open>
  \<^verbatim>\<open>map[int64][]*Comment\<close>: the pointers all point into the slice \<^verbatim>\<open>comments\<close>, so a
  pointer is an index of that slice and the slice is the store that \<^verbatim>\<open>dig\<close> mutates.
  A missing key and a key holding \<^verbatim>\<open>nil\<close> both read as the empty slice (\<^verbatim>\<open>m[k]\<close>).
\<close>

type_synonym ptrmap = "int \<Rightarrow> nat list option"

definition lookup :: "ptrmap \<Rightarrow> int \<Rightarrow> nat list" where
  "lookup m k = (case m k of None \<Rightarrow> [] | Some ps \<Rightarrow> ps)"

text \<open>\<^verbatim>\<open>c.Replies = append(c.Replies, x)\<close>: \<^verbatim>\<open>x\<close> is copied by value.\<close>

definition appendReply :: "Comment \<Rightarrow> Comment \<Rightarrow> Comment" where
  "appendReply c x =
     Comment (Id c) (Author c) (Text c) (PostedAt c) (ReplyID c) (Replies c @ [x])"

text \<open>A \<^verbatim>\<open>for _, v := range vs\<close> loop whose body may fail to return.\<close>

fun forEach :: "('a \<Rightarrow> 's \<Rightarrow> 's option) \<Rightarrow> 'a list \<Rightarrow> 's \<Rightarrow> 's option" where
  "forEach f [] s = Some s"
| "forEach f (v # vs) s = (case f v s of None \<Rightarrow> None | Some s' \<Rightarrow> forEach f vs s')"

text \<open>
  The loop body shared by \<^verbatim>\<open>dig\<close> and the second loop of \<^verbatim>\<open>ToTree\<close>:
  \<^verbatim>\<open>c.Replies = append(c.Replies, *dig(v, m))\<close>, where \<^verbatim>\<open>c\<close> is the comment at index
  \<open>p\<close>. \<^verbatim>\<open>dig\<close> returns the pointer it was given, so \<^verbatim>\<open>*dig(v, m)\<close> is the comment at
  \<open>v\<close> after the call. The replies of \<open>p\<close> are read after the call; reading them
  before it differs only if the call appends to \<open>p\<close> itself, which takes a cycle of
  replies through \<open>p\<close>.
\<close>

definition digInto ::
  "(Comment list \<Rightarrow> nat \<Rightarrow> Comment list option) \<Rightarrow> nat \<Rightarrow> nat \<Rightarrow> Comment list
     \<Rightarrow> Comment list option" where
  "digInto d p v cs =
     (case d cs v of
        None \<Rightarrow> None
      | Some cs' \<Rightarrow> Some (cs'[p := appendReply (cs' ! p) (cs' ! v)]))"

text \<open>
  \<^verbatim>\<open>dig\<close> recurses without a bound of its own; the first argument bounds the depth of
  the recursion, and \<open>None\<close> is a call that did not return within it.
\<close>

primrec dig :: "nat \<Rightarrow> ptrmap \<Rightarrow> Comment list \<Rightarrow> nat \<Rightarrow> Comment list option" where
  "dig 0 m = (\<lambda>cs p. None)"
| "dig (Suc n) m = (\<lambda>cs p.
     if length (lookup m (Id (cs ! p))) = 0 then Some cs
     else forEach (digInto (dig n m) p) (lookup m (Id (cs ! p))) cs)"

text \<open>First loop of \<^verbatim>\<open>ToTree\<close>: the map from an id to the pointers of its replies.\<close>

definition step1 :: "Comment list \<Rightarrow> nat \<Rightarrow> ptrmap \<times> nat \<Rightarrow> ptrmap \<times> nat" where
  "step1 cs i = (\<lambda>(m, tops).
     if ReplyID (cs ! i) = 0
     then ((if m (Id (cs ! i)) = None then m(Id (cs ! i) \<mapsto> []) else m), tops + 1)
     else (m(ReplyID (cs ! i) \<mapsto> lookup m (ReplyID (cs ! i)) @ [i]), tops))"

definition loop1 :: "Comment list \<Rightarrow> ptrmap \<times> nat" where
  "loop1 cs = fold (step1 cs) [0..<length cs] (Map.empty, 0)"

text \<open>Second loop: inline the replies of every comment that has some.\<close>

definition step2 ::
  "nat \<Rightarrow> nat \<Rightarrow> Comment list \<times> ptrmap \<Rightarrow> (Comment list \<times> ptrmap) option" where
  "step2 n i = (\<lambda>(cs, m).
     if length (lookup m (Id (cs ! i))) \<noteq> 0
     then (case forEach (digInto (dig n m) i) (lookup m (Id (cs ! i))) cs of
             None \<Rightarrow> None
           | Some cs' \<Rightarrow> Some (cs', m(Id (cs' ! i) \<mapsto> [])))
     else Some (cs, m))"

definition loop2 ::
  "nat \<Rightarrow> Comment list \<Rightarrow> ptrmap \<Rightarrow> (Comment list \<times> ptrmap) option" where
  "loop2 n cs m = forEach (step2 n) [0..<length cs] (cs, m)"

text \<open>Third loop: the comments with \<^verbatim>\<open>ReplyID == 0\<close>, in the order of the slice.\<close>

definition ToTree :: "nat \<Rightarrow> Comment list \<Rightarrow> Comment list option" where
  "ToTree n comments =
     (case loop2 n comments (fst (loop1 comments)) of
        None \<Rightarrow> None
      | Some (cs, m) \<Rightarrow> Some (filter (\<lambda>c. ReplyID c = 0) cs))"

text \<open>The test's comments carry an id and a reply id only.\<close>

definition cm :: "int \<Rightarrow> int \<Rightarrow> Comment list \<Rightarrow> Comment" where
  "cm i r rs = Comment i [] [] 0 r rs"

definition test_in :: "Comment list" where
  "test_in = [cm 4 1 [], cm 5 2 [], cm 6 3 [], cm 1 0 [], cm 2 0 [], cm 3 0 [],
     cm 7 4 [], cm 8 5 [], cm 9 6 [], cm 10 0 [], cm 11 1 [], cm 12 2 [], cm 13 3 [],
     cm 14 7 []]"

definition test_want :: "Comment list" where
  "test_want =
     [cm 1 0 [cm 4 1 [cm 7 4 [cm 14 7 []]], cm 11 1 []],
      cm 2 0 [cm 5 2 [cm 8 5 []], cm 12 2 []],
      cm 3 0 [cm 6 3 [cm 9 6 []], cm 13 3 []],
      cm 10 0 []]"


section \<open>News service: the SQL builder (package postgres)\<close>

text \<open>
  \<^verbatim>\<open>type Sort int\<close> with the constants \<^verbatim>\<open>Empty, Date, Title, Rank\<close>. The constant
  \<^verbatim>\<open>Date\<close> is \<open>ByDate\<close> here, since \<open>Date\<close> is also a field of \<^verbatim>\<open>Filter\<close>.
\<close>

datatype Sort = Empty | ByDate | Title | Rank

fun Sort_String :: "Sort \<Rightarrow> string" where
  "Sort_String Empty = []"
| "Sort_String ByDate = ''pub_date''"
| "Sort_String Title = ''title''"
| "Sort_String Rank = ''rank''"

record TimeFilter =
  Value :: "64 word"
  Operator :: string

text \<open>Go's \<^verbatim>\<open>int\<close> is taken as 64 bits wide, as on the platforms the images build for.\<close>

record Filter =
  Exclude :: "string list"
  SortBy :: Sort
  Page :: "64 word"
  Date :: TimeFilter
  EndDate :: TimeFilter
  TitleSearch :: "string list"

definition PageSize :: "64 word" where
  "PageSize = 10"

text \<open>The values bound to a statement (\<^verbatim>\<open>[]any\<close>): strings, \<^verbatim>\<open>int\<close> and \<^verbatim>\<open>int64\<close>.\<close>

datatype arg = ArgString string | ArgInt "64 word" | ArgInt64 "64 word"

record statement =
  sql :: string
  args :: "arg list"

text \<open>\<^verbatim>\<open>%d\<close> of a length: the decimal digits of a natural number.\<close>

fun itoa :: "nat \<Rightarrow> string" where
  "itoa n = (if n < 10 then [''0123456789'' ! n]
             else itoa (n div 10) @ [''0123456789'' ! (n mod 10)])"

declare itoa.simps [simp del]

text \<open>\<^verbatim>\<open>strings.Join\<close>.\<close>

fun Join :: "string list \<Rightarrow> string \<Rightarrow> string" where
  "Join [] sep = []"
| "Join [x] sep = x"
| "Join (x # y # ys) sep = x @ sep @ Join (y # ys) sep"

definition searchStr :: "Filter \<Rightarrow> string" where
  "searchStr f =
     Join (TitleSearch f) ''&''
     @ (if length (Exclude f) > 0 then ''&!'' else [])
     @ Join (Exclude f) ''&!''"

definition calcLimitOffset :: "64 word \<Rightarrow> 64 word \<Rightarrow> 64 word \<times> 64 word" where
  "calcLimitOffset pageNum pageSize =
     (if pageNum <s 1 then (0, 0) else (pageSize, (pageNum - 1) * pageSize))"

definition addLimitOffsetClause :: "Filter \<Rightarrow> statement \<Rightarrow> statement" where
  "addLimitOffsetClause f stmt =
     (case calcLimitOffset (Page f) PageSize of (l, ofs) \<Rightarrow>
        let stmt1 = (if 0 <s l
                     then \<lparr>sql = sql stmt @ '' LIMIT $'' @ itoa (length (args stmt) + 1),
                           args = args stmt @ [ArgInt l]\<rparr>
                     else stmt)
        in (if 0 <s ofs
            then \<lparr>sql = sql stmt1 @ '' OFFSET $'' @ itoa (length (args stmt1) + 1),
                  args = args stmt1 @ [ArgInt ofs]\<rparr>
            else stmt1))"

definition addOrderBy :: "Filter \<Rightarrow> statement \<Rightarrow> statement" where
  "addOrderBy f stmt =
     (if SortBy f = Empty
      then stmt\<lparr>sql := sql stmt @ '' ORDER BY '' @ Sort_String ByDate @ '' DESC''\<rparr>
      else if SortBy f = Rank \<and> length (TitleSearch f) > 0
      then \<lparr>sql = sql stmt @ '' ORDER BY ts_rank(title_search, to_tsquery('russian', $''
                    @ itoa (length (args stmt) + 1) @ '')) DESC'',
            args = args stmt @ [ArgString (searchStr f)]\<rparr>
      else stmt\<lparr>sql := sql stmt @ '' ORDER BY '' @ Sort_String (SortBy f) @ '' DESC''\<rparr>)"

definition addWhereClause :: "Filter \<Rightarrow> statement \<Rightarrow> statement" where
  "addWhereClause f stmt =
     (let stmt1 = (if length (TitleSearch f) > 0
                   then \<lparr>sql = sql stmt @ '' WHERE title_search @@ to_tsquery('russian', $''
                                 @ itoa (length (args stmt) + 1) @ '')'',
                         args = args stmt @ [ArgString (searchStr f)]\<rparr>
                   else stmt);
          stmt2 = (if 0 <s Value (Date f)
                   then \<lparr>sql = (if length (args stmt1) > 0
                                then sql stmt1 @ '' AND pub_date '' @ Operator (Date f) @ '' $''
                                       @ itoa (length (args stmt1) + 1)
                                else sql stmt1 @ '' WHERE pub_date '' @ Operator (Date f) @ '' $''
                                       @ itoa (length (args stmt1) + 1)),
                         args = args stmt1 @ [ArgInt64 (Value (Date f))]\<rparr>
                   else stmt1)
      in (if 0 <s Value (Date f) \<and> 0 <s Value (EndDate f)
          then \<lparr>sql = (if length (args stmt2) > 0
                       then sql stmt2 @ '' AND pub_date '' @ Operator (EndDate f) @ '' $''
                              @ itoa (length (args stmt2) + 1)
                       else sql stmt2),
                args = args stmt2 @ [ArgInt64 (Value (EndDate f))]\<rparr>
          else stmt2))"

text \<open>The statement that \<^verbatim>\<open>Items\<close> sends: WHERE, then ORDER BY, then LIMIT and OFFSET.\<close>

definition Items_stmt :: "Filter \<Rightarrow> statement" where
  "Items_stmt f =
     addLimitOffsetClause f (addOrderBy f (addWhereClause f
       \<lparr>sql = ''SELECT id, title, description, pub_date, link FROM news'', args = []\<rparr>))"

definition CountItems_stmt :: "Filter \<Rightarrow> statement" where
  "CountItems_stmt f = addWhereClause f \<lparr>sql = ''SELECT COUNT(id) FROM news'', args = []\<rparr>"


section \<open>News service: decoding the publication date (package storage)\<close>

text \<open>
  \<^verbatim>\<open>time.Time\<close> is read only through \<^verbatim>\<open>Unix()\<close>. The zero \<^verbatim>\<open>Time\<close> is January 1 of
  year 1, whose Unix time is \<open>-62135596800\<close>.
\<close>

datatype Time = Time (Unix: "64 word")

definition zeroTime :: Time where
  "zeroTime = Time (- 62135596800)"

text \<open>
  \<^verbatim>\<open>time.Parse\<close> belongs to the Go library: it is a parameter of the model, a function
  from a layout and a string to the pair \<^verbatim>\<open>(Time, error)\<close> that Go returns.
\<close>

type_synonym parser = "string \<Rightarrow> string \<Rightarrow> Time \<times> string option"

definition RFC1123Z :: string where "RFC1123Z = ''Mon, 02 Jan 2006 15:04:05 -0700''"
definition RFC1123 :: string where "RFC1123 = ''Mon, 02 Jan 2006 15:04:05 MST''"
definition UnixDate :: string where "UnixDate = ''Mon Jan _2 15:04:05 MST 2006''"
definition ANSIC :: string where "ANSIC = ''Mon Jan _2 15:04:05 2006''"
definition RFC850 :: string where "RFC850 = ''Monday, 02-Jan-06 15:04:05 MST''"
definition RFC822 :: string where "RFC822 = ''02 Jan 06 15:04 MST''"
definition RFC822Z :: string where "RFC822Z = ''02 Jan 06 15:04 -0700''"

definition layouts :: "string list" where
  "layouts = [RFC1123Z, RFC1123, UnixDate, ''02 Jan 2006 15:04:05 -0700'',
     ''Mon, 2 Jan 2006 15:04:05 -0700'', ANSIC, RFC850, RFC822, RFC822Z]"

text \<open>
  The loop of \<^verbatim>\<open>unix.UnmarshalXML\<close> over the layouts, on the variables \<^verbatim>\<open>pt\<close> and
  \<^verbatim>\<open>err\<close>: every pass overwrites both, and a pass without an error ends the loop.
\<close>

fun tryLayouts :: "parser \<Rightarrow> string list \<Rightarrow> string \<Rightarrow> Time \<times> string option
    \<Rightarrow> Time \<times> string option" where
  "tryLayouts parse [] s acc = acc"
| "tryLayouts parse (l # ls) s acc =
     (case parse l s of
        (pt, None) \<Rightarrow> (pt, None)
      | (pt, Some e) \<Rightarrow> tryLayouts parse ls s (pt, Some e))"

text \<open>
  \<^verbatim>\<open>unix.UnmarshalXML\<close>: the argument is what \<^verbatim>\<open>d.DecodeElement(&s, &start)\<close> gave, an
  error or the text of the element. The result is the value left in \<^verbatim>\<open>*t\<close> (untouched,
  here \<open>None\<close>, on the early return) and the error returned.
\<close>

definition unix_UnmarshalXML ::
  "parser \<Rightarrow> string + string \<Rightarrow> 64 word option \<times> string option" where
  "unix_UnmarshalXML parse el =
     (case el of
        Inl e \<Rightarrow> (None, Some e)
      | Inr s \<Rightarrow> (case tryLayouts parse layouts s (zeroTime, None) of
                   (pt, err) \<Rightarrow> (Some (Unix pt), err)))"

record Item =
  Item_Id :: "64 word"
  Item_Title :: string
  Item_PubDate :: "64 word"
  Item_Description :: string
  Item_Link :: string

record xmlItem =
  xml_Title :: string
  xml_PubDate :: "64 word"
  xml_Description :: string
  xml_Link :: string

text \<open>\<^verbatim>\<open>strip.StripTags\<close> is a library function, a parameter here.\<close>

definition toItem :: "(string \<Rightarrow> string) \<Rightarrow> xmlItem \<Rightarrow> Item" where
  "toItem StripTags xi =
     \<lparr>Item_Id = 0, Item_Title = xml_Title xi, Item_PubDate = xml_PubDate xi,
      Item_Description = StripTags (xml_Description xi), Item_Link = xml_Link xi\<rparr>"

text \<open>
  \<^verbatim>\<open>Item.UnmarshalXML\<close> on an \<^verbatim>\<open>item\<close> element whose children hold the four texts:
  \<^verbatim>\<open>d.DecodeElement(&xi, &start)\<close> fills the fields, calls \<^verbatim>\<open>unix.UnmarshalXML\<close> for
  \<^verbatim>\<open>pubDate\<close> and returns its error, and then no \<^verbatim>\<open>Item\<close> is assigned.
\<close>

definition Item_UnmarshalXML ::
  "parser \<Rightarrow> (string \<Rightarrow> string) \<Rightarrow> string \<Rightarrow> string \<Rightarrow> string \<Rightarrow> string \<Rightarrow> string + Item" where
  "Item_UnmarshalXML parse StripTags title pubDate description link =
     (case unix_UnmarshalXML parse (Inr pubDate) of
        (_, Some e) \<Rightarrow> Inl e
      | (None, None) \<Rightarrow> Inl []
      | (Some t, None) \<Rightarrow>
          Inr (toItem StripTags \<lparr>xml_Title = title, xml_PubDate = t,
                 xml_Description = description, xml_Link = link\<rparr>))"

section \<open>News service: the HTTP handlers (package api)\<close>

text \<open>
  \<^verbatim>\<open>strconv.ParseInt(s, 10, 64)\<close>: an optional sign, then decimal digits only, and a value
  that fits 64 bits; \<open>None\<close> is the error.
\<close>

definition digitVal :: "char \<Rightarrow> nat option" where
  "digitVal c = (if (48::nat) \<le> of_char c \<and> (of_char c :: nat) \<le> 57
                 then Some (of_char c - 48) else None)"

fun parseDigits :: "string \<Rightarrow> nat \<Rightarrow> nat option" where
  "parseDigits [] acc = Some acc"
| "parseDigits (c # cs) acc =
     (case digitVal c of None \<Rightarrow> None | Some d \<Rightarrow> parseDigits cs (10 * acc + d))"

definition ParseInt :: "string \<Rightarrow> 64 word option" where
  "ParseInt s =
     (case s of
        [] \<Rightarrow> None
      | c # cs \<Rightarrow>
          let neg = (c = CHR ''-'');
              ds = (if c = CHR ''-'' \<or> c = CHR ''+'' then cs else s)
          in if ds = [] then None
             else (case parseDigits ds 0 of
                     None \<Rightarrow> None
                   | Some n \<Rightarrow>
                       if neg then (if n \<le> 2 ^ 63 then Some (- word_of_nat n) else None)
                       else (if n < 2 ^ 63 then Some (word_of_nat n) else None)))"

text \<open>
  What the query of \<^verbatim>\<open>Postgres.Item\<close> can come to: a row that \<^verbatim>\<open>Scan\<close> reads, no row, a
  failure before any column is read (the connection, the query, the deadline), or a row
  on which \<^verbatim>\<open>Scan\<close> fails at a column after writing the columns before it (a NULL
  \<^verbatim>\<open>pub_date\<close>, say): \<open>ScanFailed k row e\<close> is a failure at column \<open>k\<close>, counted from
  0 in the order \<^verbatim>\<open>id, title, description, pub_date, link\<close>. \<^verbatim>\<open>Item\<close> returns the variable
  \<^verbatim>\<open>item\<close> with the error of \<^verbatim>\<open>Scan\<close>: the zero \<^verbatim>\<open>Item\<close> when nothing was written, the
  partly filled one when \<^verbatim>\<open>Scan\<close> stopped midway.
\<close>

datatype store_error = ErrNoRows | ErrOther string

datatype query_result = Row Item | NoRows | Failed string | ScanFailed nat Item string

definition zeroItem :: Item where
  "zeroItem = \<lparr>Item_Id = 0, Item_Title = [], Item_PubDate = 0, Item_Description = [],
     Item_Link = []\<rparr>"

text \<open>The variable \<^verbatim>\<open>item\<close> after \<^verbatim>\<open>Scan\<close> wrote the first \<open>k\<close> columns of the row.\<close>

definition scanned :: "nat \<Rightarrow> Item \<Rightarrow> Item" where
  "scanned k row =
     \<lparr>Item_Id = (if 0 < k then Item_Id row else 0),
      Item_Title = (if 1 < k then Item_Title row else []),
      Item_PubDate = (if 3 < k then Item_PubDate row else 0),
      Item_Description = (if 2 < k then Item_Description row else []),
      Item_Link = (if 4 < k then Item_Link row else [])\<rparr>"

definition postgres_Item :: "(64 word \<Rightarrow> query_result) \<Rightarrow> 64 word \<Rightarrow> Item \<times> store_error option" where
  "postgres_Item db ident =
     (case db ident of
        Row it \<Rightarrow> (it, None)
      | NoRows \<Rightarrow> (zeroItem, Some ErrNoRows)
      | Failed e \<Rightarrow> (zeroItem, Some (ErrOther e))
      | ScanFailed k row e \<Rightarrow> (scanned k row, Some (ErrOther e)))"

text \<open>A stored item whose \<^verbatim>\<open>pub_date\<close> is NULL in the table: \<^verbatim>\<open>Scan\<close> fails at column 3.\<close>

definition null_date_row :: Item where
  "null_date_row = \<lparr>Item_Id = 1, Item_Title = ''sample item'', Item_PubDate = 0,
     Item_Description = ''sample discription'', Item_Link = ''https://test.com''\<rparr>"

text \<open>A response: the status code and the JSON body.\<close>

datatype body = JSON_string string | JSON_error string | JSON_item Item

definition itemHandler ::
  "(64 word \<Rightarrow> Item \<times> store_error option) \<Rightarrow> string \<Rightarrow> nat \<times> body" where
  "itemHandler db_Item s =
     (case ParseInt s of
        None \<Rightarrow> (404, JSON_string ''not found'')
      | Some ident \<Rightarrow>
          (case db_Item ident of
             (it, Some err) \<Rightarrow>
               if it = zeroItem then (404, JSON_string ''not found'')
               else (500, JSON_error ''internal server error'')
           | (it, None) \<Rightarrow> (200, JSON_item it)))"







text \<open>
  \<^verbatim>\<open>parseQP\<close>: \<^verbatim>\<open>url.Values\<close> maps a key to the list of its values, and \<^verbatim>\<open>qp[0]\<close> is the
  first of them (a key that is present has one). \<open>Inl\<close> is the error, which the handler
  answers with status 400; the messages are written without the quotation marks that
  \<^verbatim>\<open>%q\<close> puts around the parameter's name.
\<close>

definition zeroTF :: TimeFilter where
  "zeroTF = \<lparr>Value = 0, Operator = []\<rparr>"


section \<open>Comments service: creating a comment (packages api and sqlite)\<close>

record comments_Comment =
  c_ID :: "64 word"
  c_NewsID :: "64 word"
  c_ReplyID :: "64 word"
  c_PostedAt :: "64 word"
  c_Text :: string
  c_Author_ID :: "64 word"
  c_Author_Name :: string

datatype created = Created_id "64 word" | Error_body string

text \<open>
  \<^verbatim>\<open>handleCommentCreate\<close>: the first argument is \<^verbatim>\<open>api.repo.Create\<close> on the state of the
  store, the third what decoding the body as JSON gave. The result is the status, the
  body and the new state of the store.
\<close>

definition handleCommentCreate ::
  "('db \<Rightarrow> comments_Comment \<Rightarrow> string + 64 word \<times> 'db) \<Rightarrow> 'db \<Rightarrow> string + comments_Comment
     \<Rightarrow> (nat \<times> created) \<times> 'db" where
  "handleCommentCreate Create db decoded =
     (case decoded of
        Inl err \<Rightarrow> ((400, Error_body err), db)
      | Inr c \<Rightarrow>
          if c_NewsID c = 0
          then ((400, Error_body ''invalid input: 'news_id' not found in query parameters''), db)
          else (case Create db c of
                  Inl err \<Rightarrow> ((500, Error_body ''internal server error''), db)
                | Inr (ident, db') \<Rightarrow> ((201, Created_id ident), db')))"

text \<open>
  \<^verbatim>\<open>createComment\<close> chooses between two INSERT statements; the second one reads the
  news id from the comment that \<^verbatim>\<open>reply_id\<close> names.
\<close>

datatype insert_news_id = Given "64 word" | From_comment "64 word"

definition createComment_news_id :: "comments_Comment \<Rightarrow> insert_news_id" where
  "createComment_news_id c =
     (if c_NewsID c = 0 \<and> c_ReplyID c \<noteq> 0 then From_comment (c_ReplyID c)
      else Given (c_NewsID c))"

text \<open>The filter of a request without parameters.\<close>

definition filter0 :: Filter where
  "filter0 = \<lparr>Exclude = [], SortBy = Empty, Page = 1, Date = zeroTF, EndDate = zeroTF,
     TitleSearch = []\<rparr>"

text \<open>A filter with search terms, excluded terms and a start date.\<close>

definition filter_go :: Filter where
  "filter_go = \<lparr>Exclude = [''php'', ''java''], SortBy = Empty, Page = 0,
     Date = \<lparr>Value = 1659344500, Operator = ''>''\<rparr>, EndDate = zeroTF,
     TitleSearch = [''go'', ''db'']\<rparr>"


text \<open>A parser that knows no layout, and one that knows only \<^verbatim>\<open>RFC1123\<close>.\<close>

definition parse_none :: parser where
  "parse_none layout s = (zeroTime, Some (''cannot parse '' @ s @ '' as '' @ layout))"

definition parse_RFC1123 :: parser where
  "parse_RFC1123 layout s =
     (if layout = RFC1123 then (Time 1659344500, None) else parse_none layout s)"



text \<open>The reply of the store's test: no news id, a reply id.\<close>

definition reply_comment :: comments_Comment where
  "reply_comment = \<lparr>c_ID = 0, c_NewsID = 0, c_ReplyID = 2, c_PostedAt = 1659947258,
     c_Text = ''this is test comment as reply to john comment'', c_Author_ID = 4,
     c_Author_Name = ''gary''\<rparr>"


text \<open>The forest in which comment 14 is a reply of comment 4, and comment 7 is absent.\<close>

definition test_claimed :: "Comment list" where
  "test_claimed =
     [cm 1 0 [cm 4 1 [cm 14 7 []], cm 11 1 []],
      cm 2 0 [cm 5 2 [cm 8 5 []], cm 12 2 []],
      cm 3 0 [cm 6 3 [cm 9 6 []], cm 13 3 []],
      cm 10 0 []]"

section \<open>What the forest of \<^verbatim>\<open>ToTree\<close> is measured against\<close>

text \<open>A comment without its replies, and the comments of a tree and of a forest.\<close>

definition strip :: "Comment \<Rightarrow> Comment" where
  "strip c = Comment (Id c) (Author c) (Text c) (PostedAt c) (ReplyID c) []"

fun subtrees :: "Comment \<Rightarrow> Comment list" where
  "subtrees (Comment i a t p r rs) = Comment i a t p r rs # concat (map subtrees rs)"

definition forest_nodes :: "Comment list \<Rightarrow> Comment list" where
  "forest_nodes F = concat (map subtrees F)"

text \<open>
  The replies of every comment of the tree are the comments of the input that reply to
  it, in the order of the input.
\<close>

fun good :: "Comment list \<Rightarrow> Comment \<Rightarrow> bool" where
  "good C (Comment i a t p r rs) =
     (map strip rs = filter (\<lambda>c. ReplyID c \<noteq> 0 \<and> ReplyID c = i) C
      \<and> (\<forall>u \<in> set rs. good C u))"

text \<open>The indices of the comments that reply to the id \<open>x\<close>.\<close>

definition kids :: "Comment list \<Rightarrow> int \<Rightarrow> nat list" where
  "kids C x = filter (\<lambda>k. ReplyID (C ! k) \<noteq> 0 \<and> ReplyID (C ! k) = x) [0..<length C]"

text \<open>A later state of the slice: the same comments, with replies appended.\<close>

definition ext :: "Comment list \<Rightarrow> Comment list \<Rightarrow> bool" where
  "ext cs cs' =
     (length cs' = length cs
      \<and> (\<forall>w < length cs. strip (cs' ! w) = strip (cs ! w)
            \<and> prefix (Replies (cs ! w)) (Replies (cs' ! w))))"

text \<open>Two comments that reply to each other.\<close>

definition cyclic_in :: "Comment list" where
  "cyclic_in = [cm 1 2 [], cm 2 1 []]"

text \<open>
  The comment at \<open>w\<close> has more replies in the later state, and a step from \<open>cs\<close> to
  \<open>cs'\<close> that adds replies only to the comment at \<open>v\<close> and to comments whose parent it
  also adds replies to.
\<close>

definition grown :: "Comment list \<Rightarrow> Comment list \<Rightarrow> nat \<Rightarrow> bool" where
  "grown cs cs' w = (length (Replies (cs ! w)) < length (Replies (cs' ! w)))"

definition framed :: "Comment list \<Rightarrow> nat \<Rightarrow> Comment list \<Rightarrow> Comment list \<Rightarrow> bool" where
  "framed C v cs cs' =
     (\<forall>w < length C. grown cs cs' w \<longrightarrow>
        w = v \<or> (\<exists>j < length C. w \<in> set (kids C (Id (C ! j))) \<and> grown cs cs' j))"

text \<open>
  The states of a comment while the second loop runs, read against the input \<open>C\<close> and
  the map \<open>m\<close>: not yet given replies and still listed in the map; finished, that is
  holding the replies of the input and cleared from the map. A comment \<open>k\<close> none of
  whose parents has replies yet is in one of these two states.
\<close>

definition fresh :: "Comment list \<Rightarrow> ptrmap \<Rightarrow> Comment list \<Rightarrow> nat \<Rightarrow> bool" where
  "fresh C m cs k = (Replies (cs ! k) = [] \<and> lookup m (Id (C ! k)) = kids C (Id (C ! k)))"

definition finished :: "Comment list \<Rightarrow> ptrmap \<Rightarrow> Comment list \<Rightarrow> nat \<Rightarrow> bool" where
  "finished C m cs k = (good C (cs ! k) \<and> lookup m (Id (C ! k)) = [])"

definition unexp :: "Comment list \<Rightarrow> Comment list \<Rightarrow> nat \<Rightarrow> bool" where
  "unexp C cs k = (\<forall>j < length C. k \<in> set (kids C (Id (C ! j))) \<longrightarrow> Replies (cs ! j) = [])"

definition invAt :: "Comment list \<Rightarrow> ptrmap \<Rightarrow> Comment list \<Rightarrow> nat \<Rightarrow> bool" where
  "invAt C m cs k = (unexp C cs k \<longrightarrow> fresh C m cs k \<or> finished C m cs k)"

text \<open>The map before the pass \<open>i\<close> of the second loop, and the invariant of that loop.\<close>

definition minv :: "Comment list \<Rightarrow> nat \<Rightarrow> ptrmap \<Rightarrow> bool" where
  "minv C i m = (\<forall>x. lookup m x = (if x \<in> Id ` set (take i C) then [] else kids C x))"

definition Oinv :: "Comment list \<Rightarrow> nat \<Rightarrow> Comment list \<times> ptrmap \<Rightarrow> bool" where
  "Oinv C i s =
     (ext C (fst s) \<and> minv C i (snd s) \<and> (\<forall>k < length C. invAt C (snd s) (fst s) k))"

text \<open>
  The paths of a tree, each from a comment up to the root (as ids, followed by the ids
  \<open>acc\<close> above the tree), and the lists of ids that follow the reply ids of the input
  from a comment up to a comment that replies to nothing.
\<close>

fun rpaths :: "int list \<Rightarrow> Comment \<Rightarrow> int list list" where
  "rpaths acc (Comment i a t p r rs) = (i # acc) # concat (map (rpaths (i # acc)) rs)"

fun chain :: "Comment list \<Rightarrow> int list \<Rightarrow> bool" where
  "chain C [] = False"
| "chain C [x] = (\<exists>c \<in> set C. Id c = x \<and> ReplyID c = 0)"
| "chain C (x # y # zs) =
     ((\<exists>c \<in> set C. Id c = x \<and> ReplyID c = y \<and> y \<noteq> 0) \<and> chain C (y # zs))"

text \<open>Two comments with the id 2, and the forest that \<^verbatim>\<open>ToTree\<close> makes of the list.\<close>

definition dup_in :: "Comment list" where
  "dup_in = [cm 1 0 [], cm 2 1 [], cm 2 1 [], cm 3 2 []]"

definition dup_out :: "Comment list" where
  "dup_out = [cm 1 0 [cm 2 1 [cm 3 2 []], cm 2 1 [cm 3 2 []]]]"
lemma forEach_mono:
  assumes "\<And>v s s'. v \<in> set vs \<Longrightarrow> f v s = Some s' \<Longrightarrow> g v s = Some s'"
  shows "forEach f vs s = Some s' \<Longrightarrow> forEach g vs s = Some s'"
  using assms
proof (induction vs arbitrary: s)
  case Nil
  then show ?case by simp
next
  case (Cons v vs)
  then show ?case by (auto split: option.splits)
qed

lemma digInto_mono:
  assumes "\<And>cs v cs'. d cs v = Some cs' \<Longrightarrow> d' cs v = Some cs'"
  shows "digInto d p v s = Some s' \<Longrightarrow> digInto d' p v s = Some s'"
  using assms [of s v] by (cases "d s v") (auto simp: digInto_def)

lemma dig_mono: "dig n m cs v = Some cs' \<Longrightarrow> dig (Suc n) m cs v = Some cs'"
proof (induction n arbitrary: cs v cs')
  case 0
  then show ?case by simp
next
  case (Suc n)
  show ?case
  proof (cases "length (lookup m (Id (cs ! v))) = 0")
    case True
    then show ?thesis using Suc.prems by simp
  next
    case False
    then have "forEach (digInto (dig n m) v) (lookup m (Id (cs ! v))) cs = Some cs'"
      using Suc.prems by simp
    then have "forEach (digInto (dig (Suc n) m) v) (lookup m (Id (cs ! v))) cs = Some cs'"
      by (rule forEach_mono [rotated]) (erule digInto_mono [rotated], erule Suc.IH)
    then show ?thesis using False by (subst dig.simps) simp
  qed
qed

lemma dig_mono_le: "dig n m cs v = Some cs' \<Longrightarrow> n \<le> k \<Longrightarrow> dig k m cs v = Some cs'"
proof (induction k)
  case 0
  then show ?case by simp
next
  case (Suc k)
  show ?case
  proof (cases "n = Suc k")
    case True
    then show ?thesis using Suc.prems by simp
  next
    case False
    then have "dig k m cs v = Some cs'" using Suc by simp
    then show ?thesis by (rule dig_mono)
  qed
qed

lemma step2_pair:
  "step2 n i (cs, m) =
     (if lookup m (Id (cs ! i)) \<noteq> []
      then (case forEach (digInto (dig n m) i) (lookup m (Id (cs ! i))) cs of
              None \<Rightarrow> None
            | Some cs' \<Rightarrow> Some (cs', m(Id (cs' ! i) \<mapsto> [])))
      else Some (cs, m))"
  by (simp add: step2_def)

lemma step2_mono_pair:
  assumes a: "step2 n i (cs, m) = Some s'" and le: "n \<le> k"
  shows "step2 k i (cs, m) = Some s'"
proof (cases "lookup m (Id (cs ! i)) \<noteq> []")
  case False
  then have "step2 n i (cs, m) = Some (cs, m)" "step2 k i (cs, m) = Some (cs, m)"
    by (simp_all add: step2_pair)
  then show ?thesis using a by simp
next
  case True
  then obtain cs' where f: "forEach (digInto (dig n m) i) (lookup m (Id (cs ! i))) cs = Some cs'"
    using a by (auto simp: step2_pair split: option.splits)
  have "forEach (digInto (dig k m) i) (lookup m (Id (cs ! i))) cs = Some cs'"
    using f
    by (rule forEach_mono [rotated]) (erule digInto_mono [rotated], erule dig_mono_le, rule le)
  then show ?thesis using a f True by (simp add: step2_pair)
qed

lemma step2_mono:
  assumes "step2 n i s = Some s'" and "n \<le> k"
  shows "step2 k i s = Some s'"
proof -
  obtain cs m where s: "s = (cs, m)" by (cases s)
  show ?thesis
    using assms unfolding s by (rule step2_mono_pair)
qed

lemma ToTree_mono: "ToTree n C = Some out \<Longrightarrow> n \<le> k \<Longrightarrow> ToTree k C = Some out"
proof -
  assume a: "ToTree n C = Some out" and le: "n \<le> k"
  then obtain r where r: "loop2 n C (fst (loop1 C)) = Some r"
    by (auto simp: ToTree_def split: option.splits)
  have "loop2 k C (fst (loop1 C)) = Some r"
    using r unfolding loop2_def
    by (rule forEach_mono [rotated]) (rule step2_mono [OF _ le])
  then show ?thesis using a r by (simp add: ToTree_def)
qed

lemma ToTree_test_2: "ToTree 2 test_in = Some test_want"
  by code_simp

lemma ToTree_test_low: "ToTree 0 test_in = None" "ToTree 1 test_in = None"
  by code_simp+

lemma ToTree_test_fuel: "ToTree n test_in = (if n < 2 then None else Some test_want)"
proof (cases "n < 2")
  case True
  then have "n = 0 \<or> n = 1" by auto
  then show ?thesis using ToTree_test_low by auto
next
  case False
  then show ?thesis using ToTree_mono [OF ToTree_test_2, of n] by simp
qed

text \<open>
  C2, as the code has it: on the fourteen comments of \<^verbatim>\<open>Test_ToTree\<close>, \<^verbatim>\<open>ToTree\<close> returns
  (once the recursion of \<^verbatim>\<open>dig\<close> may go two calls deep) the forest of the test: the roots
  1, 2, 3 and 10, where comment 4 under root 1 holds comment 7, which holds comment 14.
\<close>

theorem ToTree_test: "ToTree n test_in = (if n < 2 then None else Some test_want)"
  by (rule ToTree_test_fuel)

text \<open>
  C2, as stated, fails: the forest in which comment 14 is a reply of comment 4 is not
  what \<^verbatim>\<open>ToTree\<close> returns, whatever the depth allowed.
\<close>

theorem ToTree_test_claimed_counterexample:
  "\<not> (\<exists>n. ToTree n test_in = Some test_claimed)"
proof
  assume "\<exists>n. ToTree n test_in = Some test_claimed"
  then obtain n where "ToTree n test_in = Some test_claimed" ..
  then have "test_want = test_claimed"
    by (simp only: ToTree_test_fuel split: if_splits) simp_all
  then show False
    by (simp add: test_want_def test_claimed_def cm_def)
qed

lemma strip_sel [simp]:
  "Id (strip c) = Id c" "ReplyID (strip c) = ReplyID c" "Replies (strip c) = []"
  by (simp_all add: strip_def)

lemma strip_appendReply [simp]: "strip (appendReply c x) = strip c"
  by (simp add: strip_def appendReply_def)

lemma Replies_appendReply [simp]: "Replies (appendReply c x) = Replies c @ [x]"
  by (simp add: appendReply_def)

lemma strip_flat: "Replies c = [] \<Longrightarrow> strip c = c"
  by (cases c) (simp add: strip_def)

lemma strip_eq_Id: "strip a = strip b \<Longrightarrow> Id a = Id b"
  by (metis strip_sel(1))

lemma strip_eq_ReplyID: "strip a = strip b \<Longrightarrow> ReplyID a = ReplyID b"
  by (metis strip_sel(2))

lemma ext_refl: "ext cs cs"
  by (simp add: ext_def)

lemma ext_trans: "ext a b \<Longrightarrow> ext b c \<Longrightarrow> ext a c"
  unfolding ext_def by (metis prefix_order.order_trans)

lemma ext_length: "ext cs cs' \<Longrightarrow> length cs' = length cs"
  by (simp add: ext_def)

lemma ext_strip: "ext cs cs' \<Longrightarrow> w < length cs \<Longrightarrow> strip (cs' ! w) = strip (cs ! w)"
  by (simp add: ext_def)

lemma ext_prefix: "ext cs cs' \<Longrightarrow> w < length cs \<Longrightarrow> prefix (Replies (cs ! w)) (Replies (cs' ! w))"
  by (simp add: ext_def)

lemma ext_Id: "ext cs cs' \<Longrightarrow> w < length cs \<Longrightarrow> Id (cs' ! w) = Id (cs ! w)"
  by (auto dest: ext_strip strip_eq_Id)

lemma ext_update: "ext cs (cs[p := appendReply (cs ! p) x])"
proof (cases "p < length cs")
  case True
  then show ?thesis by (simp add: ext_def nth_list_update)
next
  case False
  then have "length cs \<le> p" by simp
  then have "cs[p := appendReply (cs ! p) x] = cs" by (rule list_update_beyond)
  then show ?thesis by (simp only: ext_refl)
qed

lemma forEach_ext:
  assumes "\<And>v s s'. f v s = Some s' \<Longrightarrow> ext s s'"
  shows "forEach f vs s = Some s' \<Longrightarrow> ext s s'"
proof (induction vs arbitrary: s)
  case Nil
  then show ?case by (simp add: ext_refl)
next
  case (Cons v vs)
  then obtain s1 where s1: "f v s = Some s1" "forEach f vs s1 = Some s'"
    by (auto split: option.splits)
  then show ?case using assms Cons.IH ext_trans by blast
qed

lemma digInto_ext:
  assumes "\<And>cs v cs'. d cs v = Some cs' \<Longrightarrow> ext cs cs'"
  shows "digInto d p v s = Some s' \<Longrightarrow> ext s s'"
proof -
  assume a: "digInto d p v s = Some s'"
  then obtain s1 where s1: "d s v = Some s1" "s' = s1[p := appendReply (s1 ! p) (s1 ! v)]"
    by (auto simp: digInto_def split: option.splits)
  then show ?thesis using assms ext_update ext_trans by blast
qed

lemma dig_ext: "dig n m cs v = Some cs' \<Longrightarrow> ext cs cs'"
proof (induction n arbitrary: cs v cs')
  case 0
  then show ?case by simp
next
  case (Suc n)
  show ?case
  proof (cases "length (lookup m (Id (cs ! v))) = 0")
    case True
    then show ?thesis using Suc.prems by (simp add: ext_refl)
  next
    case False
    then have "forEach (digInto (dig n m) v) (lookup m (Id (cs ! v))) cs = Some cs'"
      using Suc.prems by simp
    then show ?thesis
      by (rule forEach_ext [rotated]) (erule digInto_ext [rotated], erule Suc.IH)
  qed
qed

lemma expand_ext: "forEach (digInto (dig n m) p) vs cs = Some cs' \<Longrightarrow> ext cs cs'"
  by (rule forEach_ext [rotated], assumption) (erule digInto_ext [rotated], erule dig_ext)

lemma loop1_prefix:
  "lookup (fst (fold (step1 C) [0..<n] (Map.empty, 0))) x
     = filter (\<lambda>k. ReplyID (C ! k) \<noteq> 0 \<and> ReplyID (C ! k) = x) [0..<n]"
proof (induction n arbitrary: x)
  case 0
  then show ?case by (simp add: lookup_def)
next
  case (Suc n)
  obtain m t where mt: "fold (step1 C) [0..<n] (Map.empty, 0) = (m, t)"
    by (cases "fold (step1 C) [0..<n] (Map.empty, 0)")
  have IH: "\<And>x. lookup m x = filter (\<lambda>k. ReplyID (C ! k) \<noteq> 0 \<and> ReplyID (C ! k) = x) [0..<n]"
    using Suc.IH mt by simp
  show ?case
  proof (cases "ReplyID (C ! n) = 0")
    case True
    then have "lookup (fst (step1 C n (m, t))) x = lookup m x"
      by (auto simp: step1_def lookup_def)
    then show ?thesis using True IH mt by simp
  next
    case False
    then have "lookup (fst (step1 C n (m, t))) x
        = (if x = ReplyID (C ! n) then lookup m x @ [n] else lookup m x)"
      by (auto simp: step1_def lookup_def)
    then show ?thesis using False IH mt by auto
  qed
qed

lemma loop1_lookup: "lookup (fst (loop1 C)) x = kids C x"
  by (simp add: loop1_def kids_def loop1_prefix)

lemma forEach_terminates:
  assumes "\<And>v s. v \<in> set vs \<Longrightarrow> I s \<Longrightarrow> \<exists>s'. f v s = Some s' \<and> I s'"
  shows "I s \<Longrightarrow> \<exists>s'. forEach f vs s = Some s' \<and> I s'"
  using assms
proof (induction vs arbitrary: s)
  case Nil
  then show ?case by simp
next
  case (Cons v vs)
  have "\<exists>s'. f v s = Some s' \<and> I s'"
    using Cons.prems(1) by (rule Cons.prems(2) [rotated]) simp
  then obtain s1 where s1: "f v s = Some s1" "I s1" by blast
  have "\<exists>s'. forEach f vs s1 = Some s' \<and> I s'"
  proof (rule Cons.IH [OF s1(2)])
    fix w t
    assume "w \<in> set vs" "I t"
    then show "\<exists>s'. f w t = Some s' \<and> I s'"
      using Cons.prems(2) [of w t] by simp
  qed
  then show ?case using s1 by simp
qed

lemma kids_mem:
  "k \<in> set (kids C x) \<longleftrightarrow> k < length C \<and> ReplyID (C ! k) \<noteq> 0 \<and> ReplyID (C ! k) = x"
  by (auto simp: kids_def)

lemma expand_terminates:
  assumes rank: "\<forall>c \<in> set C. \<forall>p \<in> set C. ReplyID c \<noteq> 0 \<and> ReplyID c = Id p \<longrightarrow> rank (Id p) < rank (Id c)"
    and bound: "\<forall>c \<in> set C. rank (Id c) \<le> B"
    and msound: "\<forall>x. set (lookup m x) \<subseteq> set (kids C x)"
    and IH: "\<And>s k. ext C s \<Longrightarrow> k < length C \<Longrightarrow> B - rank (Id (C ! k)) < n
               \<Longrightarrow> \<exists>cs'. dig n m s k = Some cs' \<and> ext C cs'"
    and cs: "ext C cs" and p: "p < length C" and fuel: "B - rank (Id (C ! p)) \<le> n"
  shows "\<exists>cs'. forEach (digInto (dig n m) p) (lookup m (Id (cs ! p))) cs = Some cs' \<and> ext C cs'"
proof -
  have idp: "Id (cs ! p) = Id (C ! p)" using cs p by (simp add: ext_Id)
  have step: "\<exists>s'. digInto (dig n m) p k s = Some s' \<and> ext C s'"
    if k: "k \<in> set (lookup m (Id (cs ! p)))" and s: "ext C s" for k s
  proof -
    have "k \<in> set (kids C (Id (C ! p)))" using k msound idp by auto
    then have kk: "k < length C" "ReplyID (C ! k) \<noteq> 0" "ReplyID (C ! k) = Id (C ! p)"
      by (simp_all add: kids_mem)
    have "C ! k \<in> set C" "C ! p \<in> set C" using kk(1) p by simp_all
    then have "rank (Id (C ! p)) < rank (Id (C ! k))"
      using rank kk(2,3) by blast
    moreover have "rank (Id (C ! k)) \<le> B" using bound kk(1) by simp
    ultimately have "B - rank (Id (C ! k)) < n" using fuel by linarith
    with s kk(1) have "\<exists>cs'. dig n m s k = Some cs' \<and> ext C cs'" by (rule IH)
    then obtain s1 where s1: "dig n m s k = Some s1" "ext C s1" by blast
    have "ext s1 (s1[p := appendReply (s1 ! p) (s1 ! k)])" by (rule ext_update)
    with s1(2) have "ext C (s1[p := appendReply (s1 ! p) (s1 ! k)])" by (rule ext_trans)
    then show ?thesis using s1(1) by (simp add: digInto_def)
  qed
  show ?thesis
  proof (rule forEach_terminates [where I = "ext C"])
    fix k s
    assume "k \<in> set (lookup m (Id (cs ! p)))" "ext C s"
    then show "\<exists>s'. digInto (dig n m) p k s = Some s' \<and> ext C s'" by (rule step)
  next
    show "ext C cs" by fact
  qed
qed

lemma dig_terminates:
  assumes rank: "\<forall>c \<in> set C. \<forall>p \<in> set C. ReplyID c \<noteq> 0 \<and> ReplyID c = Id p \<longrightarrow> rank (Id p) < rank (Id c)"
    and bound: "\<forall>c \<in> set C. rank (Id c) \<le> B"
    and msound: "\<forall>x. set (lookup m x) \<subseteq> set (kids C x)"
  shows "ext C cs \<Longrightarrow> v < length C \<Longrightarrow> B - rank (Id (C ! v)) < n
    \<Longrightarrow> \<exists>cs'. dig n m cs v = Some cs' \<and> ext C cs'"
proof (induction n arbitrary: cs v)
  case 0
  then show ?case by simp
next
  case (Suc n)
  show ?case
  proof (cases "length (lookup m (Id (cs ! v))) = 0")
    case True
    then show ?thesis using Suc.prems by simp
  next
    case False
    have "B - rank (Id (C ! v)) \<le> n" using Suc.prems(3) by simp
    with rank bound msound Suc.IH Suc.prems(1,2)
    have "\<exists>cs'. forEach (digInto (dig n m) v) (lookup m (Id (cs ! v))) cs = Some cs' \<and> ext C cs'"
      by (rule expand_terminates)
    then show ?thesis using False by simp
  qed
qed

lemma step2_terminates:
  assumes rank: "\<forall>c \<in> set C. \<forall>p \<in> set C. ReplyID c \<noteq> 0 \<and> ReplyID c = Id p \<longrightarrow> rank (Id p) < rank (Id c)"
    and bound: "\<forall>c \<in> set C. rank (Id c) \<le> B"
    and msound: "\<forall>x. set (lookup m x) \<subseteq> set (kids C x)"
    and cs: "ext C cs" and i: "i < length C"
  shows "\<exists>cs' m'. step2 (Suc B) i (cs, m) = Some (cs', m')
           \<and> ext C cs' \<and> (\<forall>x. set (lookup m' x) \<subseteq> set (kids C x))"
proof (cases "lookup m (Id (cs ! i)) \<noteq> []")
  case False
  then have "step2 (Suc B) i (cs, m) = Some (cs, m)" by (simp add: step2_pair)
  then show ?thesis using cs msound by simp
next
  case True
  have IH: "\<And>s k. ext C s \<Longrightarrow> k < length C \<Longrightarrow> B - rank (Id (C ! k)) < Suc B
               \<Longrightarrow> \<exists>cs'. dig (Suc B) m s k = Some cs' \<and> ext C cs'"
    using rank bound msound by (rule dig_terminates)
  have "B - rank (Id (C ! i)) \<le> Suc B" by simp
  with rank bound msound IH cs i
  have "\<exists>cs'. forEach (digInto (dig (Suc B) m) i) (lookup m (Id (cs ! i))) cs = Some cs'
          \<and> ext C cs'"
    by (rule expand_terminates)
  then obtain cs' where cs': "forEach (digInto (dig (Suc B) m) i) (lookup m (Id (cs ! i))) cs = Some cs'"
      "ext C cs'" by blast
  have "\<forall>x. set (lookup (m(Id (cs' ! i) \<mapsto> [])) x) \<subseteq> set (kids C x)"
    using msound by (simp add: lookup_def)
  moreover have "step2 (Suc B) i (cs, m) = Some (cs', m(Id (cs' ! i) \<mapsto> []))"
    using True cs'(1) by (simp add: step2_pair)
  ultimately show ?thesis using cs'(2) by blast
qed

lemma ToTree_terminates_bound:
  assumes rank: "\<forall>c \<in> set C. \<forall>p \<in> set C. ReplyID c \<noteq> 0 \<and> ReplyID c = Id p \<longrightarrow> rank (Id p) < rank (Id c)"
    and bound: "\<forall>c \<in> set C. rank (Id c) \<le> B"
  shows "\<exists>out. ToTree (Suc B) C = Some out"
proof -
  let ?I = "\<lambda>s. ext C (fst s) \<and> (\<forall>x. set (lookup (snd s) x) \<subseteq> set (kids C x))"
  have "\<exists>s'. forEach (step2 (Suc B)) [0..<length C] (C, fst (loop1 C)) = Some s' \<and> ?I s'"
  proof (rule forEach_terminates [where I = ?I])
    fix i s
    assume i: "i \<in> set [0..<length C]" and s: "?I s"
    obtain cs m where cm: "s = (cs, m)" by (cases s)
    have "\<exists>cs' m'. step2 (Suc B) i (cs, m) = Some (cs', m')
           \<and> ext C cs' \<and> (\<forall>x. set (lookup m' x) \<subseteq> set (kids C x))"
      using rank bound
    proof (rule step2_terminates)
      show "\<forall>x. set (lookup m x) \<subseteq> set (kids C x)" using s cm by simp
      show "ext C cs" using s cm by simp
      show "i < length C" using i by simp
    qed
    then show "\<exists>s'. step2 (Suc B) i s = Some s' \<and> ?I s'" unfolding cm by auto
  next
    show "?I (C, fst (loop1 C))" by (simp add: ext_refl loop1_lookup)
  qed
  then show ?thesis by (auto simp: ToTree_def loop2_def)
qed

lemma rank_bounded:
  fixes rank :: "int \<Rightarrow> nat"
  shows "\<forall>c \<in> set C. rank (Id c) \<le> sum_list (map (\<lambda>c. rank (Id c)) C)"
  by (induction C) auto

lemma cyclic_kids: "kids cyclic_in 1 = [1]" "kids cyclic_in 2 = [0]"
  by (simp_all add: kids_def cyclic_in_def cm_def upt_rec)

lemma cyclic_dig:
  "dig n (fst (loop1 cyclic_in)) cyclic_in 0 = None
   \<and> dig n (fst (loop1 cyclic_in)) cyclic_in 1 = None"
proof (induction n)
  case 0
  then show ?case by simp
next
  case (Suc n)
  have i: "Id (cyclic_in ! 0) = 1" "Id (cyclic_in ! Suc 0) = 2"
    by (simp_all add: cyclic_in_def cm_def)
  show ?case
    using Suc by (simp add: i loop1_lookup cyclic_kids digInto_def)
qed

lemma cyclic_ToTree: "ToTree n cyclic_in = None"
proof -
  have i: "Id (cyclic_in ! 0) = 1" by (simp add: cyclic_in_def cm_def)
  have "step2 n 0 (cyclic_in, fst (loop1 cyclic_in)) = None"
    using cyclic_dig [of n] by (simp add: step2_pair i loop1_lookup cyclic_kids digInto_def)
  moreover have "[0..<length cyclic_in] = [0, 1]"
    by (simp add: cyclic_in_def upt_rec)
  ultimately show ?thesis by (simp add: ToTree_def loop2_def)
qed



text \<open>
  C10, as the code has it: \<^verbatim>\<open>ToTree\<close> returns on every list whose reply references have
  no cycle, that is, on which some rank of the ids grows from each comment of the list to
  each comment of the list that replies to it; the recursion of \<^verbatim>\<open>dig\<close> is then no deeper
  than the sum of the ranks, and every bound on the depth beyond it gives the same forest.
\<close>

theorem ToTree_terminates_acyclic:
  fixes rank :: "int \<Rightarrow> nat"
  assumes "\<forall>c \<in> set C. \<forall>p \<in> set C.
             ReplyID c \<noteq> 0 \<and> ReplyID c = Id p \<longrightarrow> rank (Id p) < rank (Id c)"
  shows "\<exists>out. \<forall>n > sum_list (map (\<lambda>c. rank (Id c)) C). ToTree n C = Some out"
proof -
  let ?B = "sum_list (map (\<lambda>c. rank (Id c)) C)"
  have "\<forall>c \<in> set C. rank (Id c) \<le> ?B" by (rule rank_bounded)
  with assms have "\<exists>out. ToTree (Suc ?B) C = Some out" by (rule ToTree_terminates_bound)
  then obtain out where out: "ToTree (Suc ?B) C = Some out" ..
  have "ToTree n C = Some out" if "?B < n" for n
    using out by (rule ToTree_mono) (use that in simp)
  then show ?thesis by blast
qed

text \<open>
  C10, as stated, fails on a cycle: for two comments that reply to each other \<^verbatim>\<open>ToTree\<close>
  does not return, however deep the recursion of \<^verbatim>\<open>dig\<close> may go.
\<close>

theorem ToTree_cycle_counterexample: "\<not> (\<exists>n out. ToTree n cyclic_in = Some out)"
  by (simp add: cyclic_ToTree)

text \<open>The comments of the test have no cycle: the ids themselves are a rank.\<close>

theorem ToTree_terminates_acyclic_witness: "\<exists>out. ToTree 106 test_in = Some out"
proof -
  have h: "\<forall>c \<in> set test_in. \<forall>p \<in> set test_in.
      ReplyID c \<noteq> 0 \<and> ReplyID c = Id p \<longrightarrow> nat (Id p) < nat (Id c)"
    by (simp add: test_in_def cm_def)
  have s: "sum_list (map (\<lambda>c. nat (Id c)) test_in) = 105"
    by (simp add: test_in_def cm_def)
  obtain out where "\<forall>n > 105. ToTree n test_in = Some out"
    using ToTree_terminates_acyclic [OF h] unfolding s ..
  then have "ToTree 106 test_in = Some out" by simp
  then show ?thesis ..
qed
lemma Comment_eqI: "strip a = strip b \<Longrightarrow> Replies a = Replies b \<Longrightarrow> a = b"
  by (cases a; cases b) (simp add: strip_def)

lemma ext_len: "ext a b \<Longrightarrow> w < length a \<Longrightarrow> length (Replies (a ! w)) \<le> length (Replies (b ! w))"
  by (auto dest: ext_prefix prefix_length_le)

lemma ext_not_grown: "ext a b \<Longrightarrow> w < length a \<Longrightarrow> \<not> grown a b w \<Longrightarrow> b ! w = a ! w"
proof -
  assume e: "ext a b" and w: "w < length a" and g: "\<not> grown a b w"
  have p: "prefix (Replies (a ! w)) (Replies (b ! w))" using e w by (rule ext_prefix)
  have "length (Replies (b ! w)) \<le> length (Replies (a ! w))" using g by (simp add: grown_def)
  then have "Replies (b ! w) = Replies (a ! w)"
    using p by (metis prefix_length_le le_antisym prefix_length_prefix prefix_order.eq_iff prefix_order.order_refl)
  moreover have "strip (b ! w) = strip (a ! w)" using e w by (rule ext_strip)
  ultimately show ?thesis by (rule Comment_eqI [rotated])
qed

lemma grown_split:
  "grown a c w \<Longrightarrow> grown a b w \<or> grown b c w"
  by (auto simp: grown_def)

lemma grown_ext_right: "grown a b w \<Longrightarrow> ext b c \<Longrightarrow> w < length b \<Longrightarrow> grown a c w"
  using ext_len [of b c w] by (simp add: grown_def)

lemma grown_ext_left: "ext a b \<Longrightarrow> grown b c w \<Longrightarrow> w < length a \<Longrightarrow> grown a c w"
  using ext_len [of a b w] by (simp add: grown_def)

lemma grown_update:
  "p < length s \<Longrightarrow> grown s (s[p := appendReply (s ! p) x]) p"
  by (simp add: grown_def)

lemma not_grown_update:
  "w \<noteq> p \<Longrightarrow> grown s (s[p := appendReply (s ! p) x]) w = False"
  by (simp add: grown_def)

lemma not_grown_refl: "\<not> grown s s w"
  by (simp add: grown_def)

lemma forEach_Cons_Some:
  "forEach f (v # vs) s = Some s' \<longleftrightarrow> (\<exists>s1. f v s = Some s1 \<and> forEach f vs s1 = Some s')"
  by (cases "f v s") simp_all

lemma digInto_Some:
  "digInto d p v s = Some s' \<longleftrightarrow>
     (\<exists>s1. d s v = Some s1 \<and> s' = s1[p := appendReply (s1 ! p) (s1 ! v)])"
  by (cases "d s v") (auto simp: digInto_def)

lemma expand_Cons:
  assumes "forEach (digInto (dig n m) p) (v # vs) cs = Some cs'"
  obtains s1 where "dig n m cs v = Some s1"
    and "forEach (digInto (dig n m) p) vs (s1[p := appendReply (s1 ! p) (s1 ! v)]) = Some cs'"
  using assms unfolding forEach_Cons_Some digInto_Some by blast

lemma expand_framed:
  assumes D: "\<And>s k s'. k < length C \<Longrightarrow> ext C s \<Longrightarrow> dig n m s k = Some s' \<Longrightarrow> framed C k s s'"
    and p: "p < length C"
  shows "set vs \<subseteq> set (kids C (Id (C ! p))) \<Longrightarrow> ext C cs
    \<Longrightarrow> forEach (digInto (dig n m) p) vs cs = Some cs' \<Longrightarrow> framed C p cs cs'"
proof (induction vs arbitrary: cs)
  case Nil
  then show ?case by (simp add: framed_def not_grown_refl)
next
  case (Cons v vs)
  let ?N = "length C"
  obtain s1 where s1: "dig n m cs v = Some s1"
    and rest: "forEach (digInto (dig n m) p) vs (s1[p := appendReply (s1 ! p) (s1 ! v)]) = Some cs'"
    using Cons.prems(3) by (rule expand_Cons)
  let ?s2 = "s1[p := appendReply (s1 ! p) (s1 ! v)]"
  have v: "v \<in> set (kids C (Id (C ! p)))" "v < ?N"
    using Cons.prems(1) by (auto simp: kids_mem)
  have e01: "ext cs s1" using s1 by (rule dig_ext)
  have e12: "ext s1 ?s2" by (rule ext_update)
  have e2': "ext ?s2 cs'" using rest by (rule expand_ext)
  have eC1: "ext C s1" using Cons.prems(2) e01 by (rule ext_trans)
  have eC2: "ext C ?s2" using eC1 e12 by (rule ext_trans)
  have e02: "ext cs ?s2" using e01 e12 by (rule ext_trans)
  have e1': "ext s1 cs'" using e12 e2' by (rule ext_trans)
  have len: "length cs = ?N" "length s1 = ?N" "length ?s2 = ?N"
    using Cons.prems(2) eC1 eC2 by (simp_all add: ext_length)
  have f1: "framed C v cs s1" using v(2) Cons.prems(2) s1 by (rule D)
  have f2: "framed C p ?s2 cs'"
    using Cons.prems(1) eC2 rest by (intro Cons.IH) auto
  have gp: "grown cs cs' p"
  proof -
    have "grown s1 ?s2 p" using p len by (simp add: grown_update)
    then have "grown s1 cs' p" using e2' p len by (intro grown_ext_right [of s1 ?s2 p cs']) simp_all
    then show ?thesis using e01 p len by (intro grown_ext_left [of cs s1 cs' p]) simp_all
  qed
  show ?case
    unfolding framed_def
  proof (intro allI impI)
    fix w
    assume w: "w < ?N" and g: "grown cs cs' w"
    show "w = p \<or> (\<exists>j < ?N. w \<in> set (kids C (Id (C ! j))) \<and> grown cs cs' j)"
    proof (cases "w = p")
      case True
      then show ?thesis by simp
    next
      case False
      have "grown cs s1 w \<or> grown s1 ?s2 w \<or> grown ?s2 cs' w"
        using g grown_split by blast
      then have "grown cs s1 w \<or> grown ?s2 cs' w"
        using False by (simp add: not_grown_update)
      then show ?thesis
      proof
        assume "grown cs s1 w"
        then have "w = v \<or> (\<exists>j < ?N. w \<in> set (kids C (Id (C ! j))) \<and> grown cs s1 j)"
          using f1 w by (simp add: framed_def)
        then show ?thesis
        proof
          assume "w = v"
          then show ?thesis using v(1) gp p by blast
        next
          assume "\<exists>j < ?N. w \<in> set (kids C (Id (C ! j))) \<and> grown cs s1 j"
          then obtain j where j: "j < ?N" "w \<in> set (kids C (Id (C ! j)))" "grown cs s1 j"
            by blast
          have "grown cs cs' j"
            using j(3) e1' j(1) len by (intro grown_ext_right [of cs s1 j cs']) simp_all
          then show ?thesis using j by blast
        qed
      next
        assume "grown ?s2 cs' w"
        then have "w = p \<or> (\<exists>j < ?N. w \<in> set (kids C (Id (C ! j))) \<and> grown ?s2 cs' j)"
          using f2 w by (simp add: framed_def)
        then obtain j where j: "j < ?N" "w \<in> set (kids C (Id (C ! j)))" "grown ?s2 cs' j"
          using False by blast
        have "grown cs cs' j"
          using e02 j(3) j(1) len by (intro grown_ext_left [of cs ?s2 cs' j]) simp_all
        then show ?thesis using j by blast
      qed
    qed
  qed
qed


lemma dig_framed:
  assumes mOK: "\<forall>x. lookup m x = [] \<or> lookup m x = kids C x"
  shows "v < length C \<Longrightarrow> ext C cs \<Longrightarrow> dig n m cs v = Some cs' \<Longrightarrow> framed C v cs cs'"
proof (induction n arbitrary: cs v cs')
  case 0
  then show ?case by simp
next
  case (Suc n)
  have idv: "Id (cs ! v) = Id (C ! v)" using Suc.prems by (simp add: ext_Id)
  show ?case
  proof (cases "length (lookup m (Id (cs ! v))) = 0")
    case True
    then have "cs' = cs" using Suc.prems(3) by simp
    then show ?thesis by (simp add: framed_def not_grown_refl)
  next
    case False
    then have f: "forEach (digInto (dig n m) v) (lookup m (Id (cs ! v))) cs = Some cs'"
      using Suc.prems(3) by simp
    have "lookup m (Id (C ! v)) = kids C (Id (C ! v))"
      using mOK False idv by (metis list.size(3))
    then have sub: "set (lookup m (Id (cs ! v))) \<subseteq> set (kids C (Id (C ! v)))"
      using idv by simp
    show ?thesis
      using Suc.IH Suc.prems(1) sub Suc.prems(2) f by (rule expand_framed)
  qed
qed

lemma framed_rank:
  fixes rank :: "int \<Rightarrow> nat"
  assumes rank: "\<forall>c \<in> set C. \<forall>p \<in> set C. ReplyID c \<noteq> 0 \<and> ReplyID c = Id p \<longrightarrow> rank (Id p) < rank (Id c)"
    and f: "framed C v cs cs'"
  shows "w < length C \<Longrightarrow> grown cs cs' w \<Longrightarrow> w = v \<or> rank (Id (C ! v)) < rank (Id (C ! w))"
proof (induction "rank (Id (C ! w))" arbitrary: w rule: less_induct)
  case less
  show ?case
  proof (cases "w = v")
    case True
    then show ?thesis by simp
  next
    case False
    then obtain j where j: "j < length C" "w \<in> set (kids C (Id (C ! j)))" "grown cs cs' j"
      using f less.prems by (auto simp: framed_def)
    have wj: "ReplyID (C ! w) \<noteq> 0" "ReplyID (C ! w) = Id (C ! j)"
      using j(2) by (simp_all add: kids_mem)
    have "C ! w \<in> set C" "C ! j \<in> set C" using less.prems(1) j(1) by simp_all
    then have r: "rank (Id (C ! j)) < rank (Id (C ! w))" using rank wj by blast
    then have "j = v \<or> rank (Id (C ! v)) < rank (Id (C ! j))"
      using j(1,3) by (rule less.hyps)
    then show ?thesis using r by auto
  qed
qed

lemma kid_rank:
  fixes rank :: "int \<Rightarrow> nat"
  assumes rank: "\<forall>c \<in> set C. \<forall>p \<in> set C. ReplyID c \<noteq> 0 \<and> ReplyID c = Id p \<longrightarrow> rank (Id p) < rank (Id c)"
    and "p < length C" "k \<in> set (kids C (Id (C ! p)))"
  shows "rank (Id (C ! p)) < rank (Id (C ! k))"
proof -
  have k: "k < length C" "ReplyID (C ! k) \<noteq> 0" "ReplyID (C ! k) = Id (C ! p)"
    using assms(3) by (simp_all add: kids_mem)
  have "C ! k \<in> set C" "C ! p \<in> set C" using k(1) assms(2) by simp_all
  then show ?thesis using rank k(2,3) by blast
qed

lemma parent_unique:
  assumes "distinct (map Id C)" "j < length C" "p < length C"
    and "k \<in> set (kids C (Id (C ! j)))" "k \<in> set (kids C (Id (C ! p)))"
  shows "j = p"
proof -
  have "Id (C ! j) = Id (C ! p)" using assms(4,5) by (simp add: kids_mem)
  then have "map Id C ! j = map Id C ! p" using assms(2,3) by simp
  moreover have "j < length (map Id C)" "p < length (map Id C)" using assms(2,3) by simp_all
  ultimately show ?thesis using assms(1) nth_eq_iff_index_eq by blast
qed

lemma parent_not_grown:
  fixes rank :: "int \<Rightarrow> nat"
  assumes rank: "\<forall>c \<in> set C. \<forall>p \<in> set C. ReplyID c \<noteq> 0 \<and> ReplyID c = Id p \<longrightarrow> rank (Id p) < rank (Id c)"
    and f: "framed C v cs cs'" and p: "p < length C" and v: "v \<in> set (kids C (Id (C ! p)))"
  shows "\<not> grown cs cs' p"
proof
  assume "grown cs cs' p"
  with rank f p have "p = v \<or> rank (Id (C ! v)) < rank (Id (C ! p))" by (rule framed_rank)
  moreover have "rank (Id (C ! p)) < rank (Id (C ! v))" using rank p v by (rule kid_rank)
  ultimately show False by auto
qed

lemma sibling_not_grown:
  fixes rank :: "int \<Rightarrow> nat"
  assumes rank: "\<forall>c \<in> set C. \<forall>p \<in> set C. ReplyID c \<noteq> 0 \<and> ReplyID c = Id p \<longrightarrow> rank (Id p) < rank (Id c)"
    and dist: "distinct (map Id C)"
    and f: "framed C v cs cs'" and p: "p < length C" and v: "v \<in> set (kids C (Id (C ! p)))"
    and k: "k \<in> set (kids C (Id (C ! p)))" "k \<noteq> v"
  shows "\<not> grown cs cs' k"
proof
  assume g: "grown cs cs' k"
  have "k < length C" using k(1) by (simp add: kids_mem)
  then obtain j where j: "j < length C" "k \<in> set (kids C (Id (C ! j)))" "grown cs cs' j"
    using f g k(2) by (auto simp: framed_def)
  have "j = p" using dist j(1) p j(2) k(1) by (rule parent_unique)
  then have "grown cs cs' p" using j(3) by simp
  moreover have "\<not> grown cs cs' p" using rank f p v by (rule parent_not_grown)
  ultimately show False by simp
qed

lemma good_iff:
  "good C t \<longleftrightarrow>
     map strip (Replies t) = filter (\<lambda>c. ReplyID c \<noteq> 0 \<and> ReplyID c = Id t) C
     \<and> (\<forall>u \<in> set (Replies t). good C u)"
  by (cases t) simp

lemma filter_nth_upt: "map (\<lambda>k. xs ! k) (filter (\<lambda>k. P (xs ! k)) [0..<length xs]) = filter P xs"
proof (induction xs rule: rev_induct)
  case Nil
  then show ?case by simp
next
  case (snoc x xs)
  have "map (\<lambda>k. (xs @ [x]) ! k) (filter (\<lambda>k. P ((xs @ [x]) ! k)) [0..<length xs])
      = map (\<lambda>k. xs ! k) (filter (\<lambda>k. P (xs ! k)) [0..<length xs])"
    by (auto simp: nth_append intro!: map_cong filter_cong)
  then show ?case using snoc by simp
qed

lemma kids_map: "map (\<lambda>k. C ! k) (kids C x) = filter (\<lambda>c. ReplyID c \<noteq> 0 \<and> ReplyID c = x) C"
  unfolding kids_def by (rule filter_nth_upt)

lemma kids_distinct: "distinct (kids C x)"
  by (simp add: kids_def)

lemma leaf_good:
  assumes "Replies t = []" "kids C (Id t) = []"
  shows "good C t"
proof -
  have "filter (\<lambda>c. ReplyID c \<noteq> 0 \<and> ReplyID c = Id t) C = map (\<lambda>k. C ! k) (kids C (Id t))"
    by (rule kids_map [symmetric])
  also have "\<dots> = []" by (simp only: assms(2) list.map)
  finally have "filter (\<lambda>c. ReplyID c \<noteq> 0 \<and> ReplyID c = Id t) C = []" .
  then show ?thesis unfolding good_iff [of C t] assms(1) by simp
qed

lemma invAt_cong:
  assumes eq: "cs' ! k = cs ! k" and lk: "lookup m' (Id (C ! k)) = lookup m (Id (C ! k))"
    and un: "unexp C cs' k \<Longrightarrow> unexp C cs k"
    and inv: "invAt C m cs k"
  shows "invAt C m' cs' k"
  unfolding invAt_def
proof
  assume "unexp C cs' k"
  then have "unexp C cs k" by (rule un)
  then have "fresh C m cs k \<or> finished C m cs k" using inv by (simp add: invAt_def)
  then show "fresh C m' cs' k \<or> finished C m' cs' k"
    unfolding fresh_def finished_def eq lk .
qed

lemma unexp_ext:
  assumes "ext cs cs'" "length cs = length C" "unexp C cs' k"
  shows "unexp C cs k"
  unfolding unexp_def
proof (intro allI impI)
  fix j
  assume j: "j < length C" "k \<in> set (kids C (Id (C ! j)))"
  then have "Replies (cs' ! j) = []" using assms(3) by (simp add: unexp_def)
  moreover have "prefix (Replies (cs ! j)) (Replies (cs' ! j))"
    using assms(1,2) j(1) by (simp add: ext_prefix)
  ultimately show "Replies (cs ! j) = []" by simp
qed

lemma invAt_framed:
  assumes e: "ext cs cs'" and len: "length cs = length C" and f: "framed C v cs cs'"
    and k: "k < length C" "k \<noteq> v" and inv: "invAt C m cs k"
  shows "invAt C m cs' k"
proof (cases "grown cs cs' k")
  case False
  then have eq: "cs' ! k = cs ! k" using e k(1) len by (intro ext_not_grown) simp_all
  show ?thesis
  proof (rule invAt_cong [where cs = cs and m = m])
    show "unexp C cs' k \<Longrightarrow> unexp C cs k" using e len by (rule unexp_ext)
  qed (simp_all add: inv eq)
next
  case True
  then obtain j where j: "j < length C" "k \<in> set (kids C (Id (C ! j)))" "grown cs cs' j"
    using f k by (auto simp: framed_def)
  have "Replies (cs' ! j) \<noteq> []" using j(3) by (auto simp: grown_def)
  then have "\<not> unexp C cs' k" using j(1,2) by (auto simp: unexp_def)
  then show ?thesis by (simp add: invAt_def)
qed


lemma unexp_update:
  assumes "k \<notin> set (kids C (Id (C ! p)))" "unexp C (s[p := y]) k"
  shows "unexp C s k"
  unfolding unexp_def
proof (intro allI impI)
  fix j
  assume j: "j < length C" "k \<in> set (kids C (Id (C ! j)))"
  then have "j \<noteq> p" using assms(1) by auto
  moreover have "Replies (s[p := y] ! j) = []" using assms(2) j by (simp add: unexp_def)
  ultimately show "Replies (s ! j) = []" by simp
qed

lemma expand_good:
  fixes rank :: "int \<Rightarrow> nat"
  assumes rank: "\<forall>c \<in> set C. \<forall>p \<in> set C. ReplyID c \<noteq> 0 \<and> ReplyID c = Id p \<longrightarrow> rank (Id p) < rank (Id c)"
    and dist: "distinct (map Id C)"
    and flat: "\<forall>c \<in> set C. Replies c = []"
    and mOK: "\<forall>x. lookup m x = [] \<or> lookup m x = kids C x"
    and Dn: "\<And>s v s'. v < length C \<Longrightarrow> ext C s \<Longrightarrow> fresh C m s v \<or> finished C m s v \<Longrightarrow>
               (\<forall>k < length C. rank (Id (C ! v)) < rank (Id (C ! k)) \<longrightarrow> invAt C m s k) \<Longrightarrow>
               dig n m s v = Some s' \<Longrightarrow> good C (s' ! v)"
    and p: "p < length C"
  shows "kids C (Id (C ! p)) = vs1 @ vs2 \<Longrightarrow> ext C cs
    \<Longrightarrow> map strip (Replies (cs ! p)) = map (\<lambda>k. C ! k) vs1
    \<Longrightarrow> \<forall>u \<in> set (Replies (cs ! p)). good C u
    \<Longrightarrow> \<forall>k \<in> set vs2. fresh C m cs k \<or> finished C m cs k
    \<Longrightarrow> \<forall>k < length C. rank (Id (C ! p)) < rank (Id (C ! k)) \<longrightarrow> invAt C m cs k
    \<Longrightarrow> forEach (digInto (dig n m) p) vs2 cs = Some cs'
    \<Longrightarrow> good C (cs' ! p)"
proof (induction vs2 arbitrary: vs1 cs)
  case Nil
  have "cs' = cs" using Nil.prems(7) by simp
  have idp: "Id (cs ! p) = Id (C ! p)" using Nil.prems(2) p by (simp add: ext_Id)
  have "map strip (Replies (cs ! p)) = map (\<lambda>k. C ! k) (kids C (Id (C ! p)))"
    using Nil.prems(1,3) by simp
  also have "\<dots> = filter (\<lambda>c. ReplyID c \<noteq> 0 \<and> ReplyID c = Id (C ! p)) C"
    by (rule kids_map)
  finally have "good C (cs ! p)"
    unfolding good_iff [of C "cs ! p"] idp using Nil.prems(4) by simp
  then show ?case unfolding \<open>cs' = cs\<close> .
next
  case (Cons v vs2)
  let ?N = "length C"
  obtain s1 where s1: "dig n m cs v = Some s1"
    and rest: "forEach (digInto (dig n m) p) vs2 (s1[p := appendReply (s1 ! p) (s1 ! v)]) = Some cs'"
    using Cons.prems(7) by (rule expand_Cons)
  let ?s2 = "s1[p := appendReply (s1 ! p) (s1 ! v)]"
  have vk: "v \<in> set (kids C (Id (C ! p)))" using Cons.prems(1) by simp
  then have v: "v < ?N" by (simp add: kids_mem)
  have e01: "ext cs s1" using s1 by (rule dig_ext)
  have e12: "ext s1 ?s2" by (rule ext_update)
  have eC1: "ext C s1" using Cons.prems(2) e01 by (rule ext_trans)
  have eC2: "ext C ?s2" using eC1 e12 by (rule ext_trans)
  have len: "length cs = ?N" "length s1 = ?N"
    using Cons.prems(2) eC1 by (simp_all add: ext_length)
  have rv: "rank (Id (C ! p)) < rank (Id (C ! v))" using rank p vk by (rule kid_rank)
  have pv: "p \<noteq> v" using rv by auto
  have f1: "framed C v cs s1" using mOK v Cons.prems(2) s1 by (rule dig_framed)
  \<comment> \<open>the reply that is appended\<close>
  have okv: "fresh C m cs v \<or> finished C m cs v" using Cons.prems(5) by simp
  have invv: "\<forall>k < ?N. rank (Id (C ! v)) < rank (Id (C ! k)) \<longrightarrow> invAt C m cs k"
    using Cons.prems(6) rv by auto
  have gv: "good C (s1 ! v)" using v Cons.prems(2) okv invv s1 by (rule Dn)
  have "strip (s1 ! v) = strip (C ! v)" using eC1 v by (rule ext_strip)
  moreover have "Replies (C ! v) = []" using flat v by simp
  ultimately have sv: "strip (s1 ! v) = C ! v" by (simp add: strip_flat)
  \<comment> \<open>the comment that receives it\<close>
  have "\<not> grown cs s1 p" using rank f1 p vk by (rule parent_not_grown)
  then have p1: "s1 ! p = cs ! p" using e01 p len by (intro ext_not_grown) simp_all
  have rp: "Replies (?s2 ! p) = Replies (cs ! p) @ [s1 ! v]"
    using p len p1 by simp
  have a1: "kids C (Id (C ! p)) = (vs1 @ [v]) @ vs2" using Cons.prems(1) by simp
  have a3: "map strip (Replies (?s2 ! p)) = map (\<lambda>k. C ! k) (vs1 @ [v])"
    unfolding rp using Cons.prems(3) sv by simp
  have a4: "\<forall>u \<in> set (Replies (?s2 ! p)). good C u"
    unfolding rp using Cons.prems(4) gv by simp
  \<comment> \<open>the replies still to come\<close>
  have dk: "distinct (vs1 @ v # vs2)" using kids_distinct [of C "Id (C ! p)"] Cons.prems(1) by simp
  have a5: "\<forall>k \<in> set vs2. fresh C m ?s2 k \<or> finished C m ?s2 k"
  proof
    fix k
    assume k: "k \<in> set vs2"
    then have kk: "k \<in> set (kids C (Id (C ! p)))" using Cons.prems(1) by simp
    then have kN: "k < ?N" by (simp add: kids_mem)
    have kv: "k \<noteq> v" using dk k by auto
    have "rank (Id (C ! p)) < rank (Id (C ! k))" using rank p kk by (rule kid_rank)
    then have kp: "k \<noteq> p" by auto
    have "\<not> grown cs s1 k" using rank dist f1 p vk kk kv by (rule sibling_not_grown)
    then have "s1 ! k = cs ! k" using e01 kN len by (intro ext_not_grown) simp_all
    then have eq: "?s2 ! k = cs ! k" using kp by simp
    have "fresh C m cs k \<or> finished C m cs k" using Cons.prems(5) k by simp
    then show "fresh C m ?s2 k \<or> finished C m ?s2 k"
      unfolding fresh_def finished_def eq .
  qed
  have a6: "\<forall>k < ?N. rank (Id (C ! p)) < rank (Id (C ! k)) \<longrightarrow> invAt C m ?s2 k"
  proof (intro allI impI)
    fix k
    assume kN: "k < ?N" and rk: "rank (Id (C ! p)) < rank (Id (C ! k))"
    have kp: "k \<noteq> p" using rk by auto
    show "invAt C m ?s2 k"
    proof (cases "k \<in> set (kids C (Id (C ! p)))")
      case True
      have "Replies (?s2 ! p) \<noteq> []" unfolding rp by simp
      then have "\<not> unexp C ?s2 k" using True p by (auto simp: unexp_def)
      then show ?thesis by (simp add: invAt_def)
    next
      case False
      then have kv: "k \<noteq> v" using vk by auto
      have "invAt C m cs k" using Cons.prems(6) kN rk by simp
      with e01 len(1) f1 kN kv have i1: "invAt C m s1 k" by (rule invAt_framed)
      show ?thesis
      proof (rule invAt_cong [where cs = s1 and m = m])
        show "?s2 ! k = s1 ! k" using kp by simp
        show "unexp C ?s2 k \<Longrightarrow> unexp C s1 k" using False by (rule unexp_update)
      qed (simp_all add: i1)
    qed
  qed
  show ?case using a1 eC2 a3 a4 a5 a6 rest by (rule Cons.IH)
qed


lemma dig_good:
  fixes rank :: "int \<Rightarrow> nat"
  assumes rank: "\<forall>c \<in> set C. \<forall>p \<in> set C. ReplyID c \<noteq> 0 \<and> ReplyID c = Id p \<longrightarrow> rank (Id p) < rank (Id c)"
    and dist: "distinct (map Id C)"
    and flat: "\<forall>c \<in> set C. Replies c = []"
    and mOK: "\<forall>x. lookup m x = [] \<or> lookup m x = kids C x"
  shows "v < length C \<Longrightarrow> ext C cs \<Longrightarrow> fresh C m cs v \<or> finished C m cs v
    \<Longrightarrow> (\<forall>k < length C. rank (Id (C ! v)) < rank (Id (C ! k)) \<longrightarrow> invAt C m cs k)
    \<Longrightarrow> dig n m cs v = Some cs' \<Longrightarrow> good C (cs' ! v)"
proof (induction n arbitrary: cs v cs')
  case 0
  then show ?case by simp
next
  case (Suc n)
  have idv: "Id (cs ! v) = Id (C ! v)" using Suc.prems(1,2) by (simp add: ext_Id)
  show ?case
  proof (cases "lookup m (Id (C ! v)) = []")
    case True
    then have eq: "cs' = cs" using Suc.prems(5) idv by simp
    have "good C (cs ! v)"
      using Suc.prems(3)
    proof
      assume "fresh C m cs v"
      then have "Replies (cs ! v) = []" "kids C (Id (cs ! v)) = []"
        using True idv by (simp_all add: fresh_def)
      then show ?thesis by (rule leaf_good)
    next
      assume "finished C m cs v"
      then show ?thesis by (simp add: finished_def)
    qed
    then show ?thesis unfolding eq .
  next
    case False
    then have fr: "fresh C m cs v" using Suc.prems(3) by (auto simp: finished_def)
    then have lk: "lookup m (Id (C ! v)) = kids C (Id (C ! v))" and re: "Replies (cs ! v) = []"
      by (simp_all add: fresh_def)
    have f: "forEach (digInto (dig n m) v) (kids C (Id (C ! v))) cs = Some cs'"
      using Suc.prems(5) False idv lk by simp
    have a1: "kids C (Id (C ! v)) = [] @ kids C (Id (C ! v))" by simp
    have a3: "map strip (Replies (cs ! v)) = map (\<lambda>k. C ! k) []" using re by simp
    have a4: "\<forall>u \<in> set (Replies (cs ! v)). good C u" using re by simp
    have a5: "\<forall>k \<in> set (kids C (Id (C ! v))). fresh C m cs k \<or> finished C m cs k"
    proof
      fix k
      assume k: "k \<in> set (kids C (Id (C ! v)))"
      then have kN: "k < length C" by (simp add: kids_mem)
      have rk: "rank (Id (C ! v)) < rank (Id (C ! k))" using rank Suc.prems(1) k by (rule kid_rank)
      have "unexp C cs k"
        unfolding unexp_def
      proof (intro allI impI)
        fix j
        assume j: "j < length C" "k \<in> set (kids C (Id (C ! j)))"
        have "j = v" using dist j(1) Suc.prems(1) j(2) k by (rule parent_unique)
        then show "Replies (cs ! j) = []" using re by simp
      qed
      moreover have "invAt C m cs k" using Suc.prems(4) kN rk by simp
      ultimately show "fresh C m cs k \<or> finished C m cs k" by (simp add: invAt_def)
    qed
    show ?thesis
      using rank dist flat mOK Suc.IH Suc.prems(1) a1 Suc.prems(2) a3 a4 a5 Suc.prems(4) f
      by (rule expand_good)
  qed
qed

lemma forEach_append:
  "forEach f (xs @ ys) s = (case forEach f xs s of None \<Rightarrow> None | Some s1 \<Rightarrow> forEach f ys s1)"
  by (induction xs arbitrary: s) (simp_all split: option.splits)

lemma forEach_upt_inv:
  assumes step: "\<And>i s s'. i < n \<Longrightarrow> I i s \<Longrightarrow> f i s = Some s' \<Longrightarrow> I (Suc i) s'"
  shows "k \<le> n \<Longrightarrow> I 0 s \<Longrightarrow> forEach f [0..<k] s = Some s' \<Longrightarrow> I k s'"
proof (induction k arbitrary: s')
  case 0
  then show ?case by simp
next
  case (Suc k)
  obtain s1 where s1: "forEach f [0..<k] s = Some s1" and l: "f k s1 = Some s'"
    using Suc.prems(3) by (auto simp: forEach_append split: option.splits)
  have "I k s1" using Suc.prems(1,2) s1 by (intro Suc.IH) simp_all
  then show ?case using l Suc.prems(1) by (intro step [of k s1 s']) simp_all
qed


lemma ids_inj:
  assumes "distinct (map Id C)" "j < length C" "p < length C" "Id (C ! j) = Id (C ! p)"
  shows "j = p"
proof -
  have "map Id C ! j = map Id C ! p" using assms(2,3,4) by simp
  moreover have "j < length (map Id C)" "p < length (map Id C)" using assms(2,3) by simp_all
  ultimately show ?thesis using assms(1) nth_eq_iff_index_eq by blast
qed

lemma minv_mOK: "minv C i m \<Longrightarrow> \<forall>x. lookup m x = [] \<or> lookup m x = kids C x"
  by (simp add: minv_def)

lemma kids_ok:
  assumes dist: "distinct (map Id C)" and v: "v < length C" and re: "Replies (cs ! v) = []"
    and inv: "\<forall>k < length C. invAt C m cs k"
  shows "\<forall>k \<in> set (kids C (Id (C ! v))). fresh C m cs k \<or> finished C m cs k"
proof
  fix k
  assume k: "k \<in> set (kids C (Id (C ! v)))"
  then have kN: "k < length C" by (simp add: kids_mem)
  have "unexp C cs k"
    unfolding unexp_def
  proof (intro allI impI)
    fix j
    assume j: "j < length C" "k \<in> set (kids C (Id (C ! j)))"
    have "j = v" using dist j(1) v j(2) k by (rule parent_unique)
    then show "Replies (cs ! j) = []" using re by simp
  qed
  moreover have "invAt C m cs k" using inv kN by simp
  ultimately show "fresh C m cs k \<or> finished C m cs k" by (simp add: invAt_def)
qed

lemma step2_inv:
  fixes rank :: "int \<Rightarrow> nat"
  assumes rank: "\<forall>c \<in> set C. \<forall>p \<in> set C. ReplyID c \<noteq> 0 \<and> ReplyID c = Id p \<longrightarrow> rank (Id p) < rank (Id c)"
    and dist: "distinct (map Id C)"
    and flat: "\<forall>c \<in> set C. Replies c = []"
    and i: "i < length C"
    and inv: "Oinv C i (cs, m)"
    and st: "step2 n i (cs, m) = Some (cs', m')"
  shows "Oinv C (Suc i) (cs', m')"
proof -
  let ?N = "length C"
  have e: "ext C cs" and mi: "minv C i m" and ia: "\<forall>k < ?N. invAt C m cs k"
    using inv by (simp_all add: Oinv_def)
  have mOK: "\<forall>x. lookup m x = [] \<or> lookup m x = kids C x" using mi by (rule minv_mOK)
  have idi: "Id (cs ! i) = Id (C ! i)" using e i by (simp add: ext_Id)
  have len: "length cs = ?N" using e by (simp add: ext_length)
  have tk: "Id ` set (take (Suc i) C) = insert (Id (C ! i)) (Id ` set (take i C))"
    using i by (simp add: take_Suc_conv_app_nth)
  show ?thesis
  proof (cases "lookup m (Id (C ! i)) = []")
    case True
    then have "step2 n i (cs, m) = Some (cs, m)" using idi by (simp add: step2_pair)
    then have eq: "cs' = cs" "m' = m" using st by simp_all
    have "minv C (Suc i) m"
      unfolding minv_def tk using mi True by (auto simp: minv_def)
    then show ?thesis unfolding eq Oinv_def using e ia by simp
  next
    case False
    then have lk: "lookup m (Id (C ! i)) = kids C (Id (C ! i))" using mOK by auto
    obtain cs1 where f: "forEach (digInto (dig n m) i) (kids C (Id (C ! i))) cs = Some cs1"
      and eq: "cs' = cs1" "m' = m(Id (cs1 ! i) \<mapsto> [])"
      using st False idi lk by (auto simp: step2_pair split: option.splits)
    have e01: "ext cs cs1" using f by (rule expand_ext)
    have eC1: "ext C cs1" using e e01 by (rule ext_trans)
    have id1: "Id (cs1 ! i) = Id (C ! i)" using eC1 i by (simp add: ext_Id)
    have m': "m' = m(Id (C ! i) \<mapsto> [])" using eq(2) id1 by simp
    have lk': "\<And>x. lookup m' x = (if x = Id (C ! i) then [] else lookup m x)"
      unfolding m' by (simp add: lookup_def)
    have fr: "framed C i cs cs1"
    proof (rule expand_framed [where n = n and m = m and vs = "kids C (Id (C ! i))"])
      fix s k s'
      assume "k < ?N" "ext C s" "dig n m s k = Some s'"
      with mOK show "framed C k s s'" by (rule dig_framed)
    qed (simp_all add: i e f)
    have mi': "minv C (Suc i) m'"
      unfolding minv_def tk using mi by (auto simp: minv_def lk')
    have ia': "\<forall>k < ?N. invAt C m' cs1 k"
    proof (intro allI impI)
      fix k
      assume kN: "k < ?N"
      show "invAt C m' cs1 k"
      proof (cases "k = i")
        case False
        have "invAt C m cs k" using ia kN by simp
        with e01 len fr kN False have i1: "invAt C m cs1 k" by (rule invAt_framed)
        have "Id (C ! k) \<noteq> Id (C ! i)" using ids_inj [OF dist kN i] False by blast
        then have "lookup m' (Id (C ! k)) = lookup m (Id (C ! k))" by (simp add: lk')
        then show ?thesis
          by (rule invAt_cong [where cs = cs1 and m = m, rotated]) (simp_all add: i1)
      next
        case True
        show ?thesis
          unfolding invAt_def True
        proof
          assume "unexp C cs1 i"
          with e01 len have "unexp C cs i" by (rule unexp_ext)
          then have "fresh C m cs i \<or> finished C m cs i" using ia i by (simp add: invAt_def)
          then have "fresh C m cs i" using False by (auto simp: finished_def)
          then have re: "Replies (cs ! i) = []" by (simp add: fresh_def)
          have a1: "kids C (Id (C ! i)) = [] @ kids C (Id (C ! i))" by simp
          have a3: "map strip (Replies (cs ! i)) = map (\<lambda>k. C ! k) []" using re by simp
          have a4: "\<forall>u \<in> set (Replies (cs ! i)). good C u" using re by simp
          have a5: "\<forall>k \<in> set (kids C (Id (C ! i))). fresh C m cs k \<or> finished C m cs k"
            using dist i re ia by (rule kids_ok)
          have a6: "\<forall>k < ?N. rank (Id (C ! i)) < rank (Id (C ! k)) \<longrightarrow> invAt C m cs k"
            using ia by simp
          have Dn: "\<And>s v s'. v < ?N \<Longrightarrow> ext C s \<Longrightarrow> fresh C m s v \<or> finished C m s v \<Longrightarrow>
               (\<forall>k < ?N. rank (Id (C ! v)) < rank (Id (C ! k)) \<longrightarrow> invAt C m s k) \<Longrightarrow>
               dig n m s v = Some s' \<Longrightarrow> good C (s' ! v)"
            using rank dist flat mOK by (rule dig_good)
          have "good C (cs1 ! i)"
            using rank dist flat mOK Dn i a1 e a3 a4 a5 a6 f by (rule expand_good)
          then have "finished C m' cs1 i" by (simp add: finished_def lk')
          then show "fresh C m' cs1 i \<or> finished C m' cs1 i" ..
        qed
      qed
    qed
    show ?thesis unfolding eq(1) Oinv_def using eC1 mi' ia' by simp
  qed
qed


lemma ext_map_strip: "ext C cs \<Longrightarrow> map strip cs = map strip C"
  by (rule nth_equalityI) (simp_all add: ext_length ext_strip)

lemma flat_map_strip: "\<forall>c \<in> set C. Replies c = [] \<Longrightarrow> map strip C = C"
  by (rule map_idI) (simp add: strip_flat)

lemma filter_roots_strip:
  "map strip (filter (\<lambda>c. ReplyID c = 0) cs) = filter (\<lambda>c. ReplyID c = 0) (map strip cs)"
  by (induction cs) simp_all

lemma ToTree_roots_good:
  fixes rank :: "int \<Rightarrow> nat"
  assumes rank: "\<forall>c \<in> set C. \<forall>p \<in> set C. ReplyID c \<noteq> 0 \<and> ReplyID c = Id p \<longrightarrow> rank (Id p) < rank (Id c)"
    and dist: "distinct (map Id C)"
    and flat: "\<forall>c \<in> set C. Replies c = []"
    and tt: "ToTree n C = Some out"
  shows "map strip out = filter (\<lambda>c. ReplyID c = 0) C \<and> (\<forall>t \<in> set out. good C t)"
proof -
  let ?N = "length C"
  obtain cs' m' where l2: "forEach (step2 n) [0..<?N] (C, fst (loop1 C)) = Some (cs', m')"
    and out: "out = filter (\<lambda>c. ReplyID c = 0) cs'"
    using tt by (auto simp: ToTree_def loop2_def split: option.splits)
  have i0: "Oinv C 0 (C, fst (loop1 C))"
    using flat by (simp add: Oinv_def ext_refl minv_def loop1_lookup invAt_def fresh_def)
  have step: "\<And>i s s'. i < ?N \<Longrightarrow> Oinv C i s \<Longrightarrow> step2 n i s = Some s' \<Longrightarrow> Oinv C (Suc i) s'"
  proof -
    fix i s s'
    assume a: "i < ?N" "Oinv C i s" "step2 n i s = Some s'"
    obtain cs m where s: "s = (cs, m)" by (cases s)
    obtain cs1 m1 where s': "s' = (cs1, m1)" by (cases s')
    show "Oinv C (Suc i) s'"
      using rank dist flat a unfolding s s' by (rule step2_inv)
  qed
  have "?N \<le> ?N" by (rule le_refl)
  with step have iN: "Oinv C ?N (cs', m')"
    using i0 l2 by (rule forEach_upt_inv)
  then have e: "ext C cs'" and mi: "minv C ?N m'" and ia: "\<forall>k < ?N. invAt C m' cs' k"
    by (simp_all add: Oinv_def)
  have "map strip out = filter (\<lambda>c. ReplyID c = 0) (map strip cs')"
    unfolding out by (rule filter_roots_strip)
  also have "map strip cs' = C" using e flat by (simp add: ext_map_strip flat_map_strip)
  finally have a: "map strip out = filter (\<lambda>c. ReplyID c = 0) C" .
  have b: "good C t" if t: "t \<in> set out" for t
  proof -
    have "t \<in> set cs'" "ReplyID t = 0" using t out by simp_all
    then obtain j where j: "j < length cs'" "t = cs' ! j" by (auto simp: in_set_conv_nth)
    have jN: "j < ?N" using j(1) e by (simp add: ext_length)
    have "strip (cs' ! j) = strip (C ! j)" using e jN by (rule ext_strip)
    then have r0: "ReplyID (C ! j) = 0" and idj: "Id (cs' ! j) = Id (C ! j)"
      using \<open>ReplyID t = 0\<close> j(2) by (auto dest: strip_eq_ReplyID strip_eq_Id)
    have "unexp C cs' j" using r0 by (simp add: unexp_def kids_mem)
    then have "fresh C m' cs' j \<or> finished C m' cs' j" using ia jN by (simp add: invAt_def)
    then have "good C (cs' ! j)"
    proof
      assume fr: "fresh C m' cs' j"
      have "C ! j \<in> set C" using jN by simp
      then have "Id (C ! j) \<in> Id ` set (take ?N C)" by simp
      then have "lookup m' (Id (C ! j)) = []" using mi by (simp add: minv_def)
      then have "Replies (cs' ! j) = []" "kids C (Id (cs' ! j)) = []"
        using fr idj by (simp_all add: fresh_def)
      then show ?thesis by (rule leaf_good)
    next
      assume "finished C m' cs' j"
      then show ?thesis by (simp add: finished_def)
    qed
    then show ?thesis using j(2) by simp
  qed
  show ?thesis using a b by simp
qed

lemma good_subtrees: "good C t \<Longrightarrow> w \<in> set (subtrees t) \<Longrightarrow> good C w"
proof (induction t rule: subtrees.induct)
  case (1 i a t p r rs)
  from "1.prems"(2) have "w = Comment i a t p r rs \<or> (\<exists>u \<in> set rs. w \<in> set (subtrees u))"
    by auto
  then show ?case
  proof
    assume "w = Comment i a t p r rs"
    then show ?thesis using "1.prems"(1) by simp
  next
    assume "\<exists>u \<in> set rs. w \<in> set (subtrees u)"
    then obtain u where u: "u \<in> set rs" "w \<in> set (subtrees u)" by blast
    have "good C u" using "1.prems"(1) u(1) by simp
    with u show ?thesis by (intro "1.IH" [of u]) simp_all
  qed
qed

lemma good_reply_in:
  assumes "good C t" "u \<in> set (Replies t)"
  shows "strip u \<in> set C \<and> ReplyID u = Id t \<and> ReplyID u \<noteq> 0 \<and> good C u"
proof -
  have g: "map strip (Replies t) = filter (\<lambda>c. ReplyID c \<noteq> 0 \<and> ReplyID c = Id t) C"
      "good C u"
    using assms by (simp_all add: good_iff [of C t])
  have "strip u \<in> set (map strip (Replies t))" using assms(2) by simp
  then have "strip u \<in> set (filter (\<lambda>c. ReplyID c \<noteq> 0 \<and> ReplyID c = Id t) C)"
    unfolding g(1) .
  then have "strip u \<in> set C" "ReplyID (strip u) \<noteq> 0" "ReplyID (strip u) = Id t" by simp_all
  then show ?thesis using g(2) by simp
qed

lemma good_subtrees_in:
  "good C t \<Longrightarrow> strip t \<in> set C \<Longrightarrow> w \<in> set (subtrees t) \<Longrightarrow> strip w \<in> set C"
proof (induction t rule: subtrees.induct)
  case (1 i a t p r rs)
  from "1.prems"(3) have "w = Comment i a t p r rs \<or> (\<exists>u \<in> set rs. w \<in> set (subtrees u))"
    by auto
  then show ?case
  proof
    assume "w = Comment i a t p r rs"
    then show ?thesis using "1.prems"(2) by simp
  next
    assume "\<exists>u \<in> set rs. w \<in> set (subtrees u)"
    then obtain u where u: "u \<in> set rs" "w \<in> set (subtrees u)" by blast
    have "strip u \<in> set C \<and> ReplyID u = Id (Comment i a t p r rs) \<and> ReplyID u \<noteq> 0 \<and> good C u"
      using "1.prems"(1) by (rule good_reply_in) (simp add: u(1))
    then show ?thesis using u by (intro "1.IH" [of u]) simp_all
  qed
qed

lemma map_hd_rpaths: "map hd (rpaths acc t) = map Id (subtrees t)"
proof (induction t arbitrary: acc rule: subtrees.induct)
  case (1 i a t p r rs)
  have "map hd (concat (map (rpaths (i # acc)) rs)) = map Id (concat (map subtrees rs))"
    using "1.IH" by (induction rs) simp_all
  then show ?case by simp
qed

lemma rpaths_suffix: "q \<in> set (rpaths acc t) \<Longrightarrow> suffix (Id t # acc) q"
proof (induction t arbitrary: acc rule: subtrees.induct)
  case (1 i a t p r rs)
  from "1.prems" have "q = i # acc \<or> (\<exists>u \<in> set rs. q \<in> set (rpaths (i # acc) u))"
    by auto
  then show ?case
  proof
    assume "q = i # acc"
    then show ?thesis by simp
  next
    assume "\<exists>u \<in> set rs. q \<in> set (rpaths (i # acc) u)"
    then obtain u where u: "u \<in> set rs" "q \<in> set (rpaths (i # acc) u)" by blast
    then have "suffix (Id u # i # acc) q" by (rule "1.IH")
    then have "suffix (i # acc) q" by (rule suffix_ConsD)
    then show ?thesis by simp
  qed
qed

lemma suffix_key: "suffix (x # acc) q \<Longrightarrow> rev q ! length acc = x"
  by (auto simp: suffix_def nth_append)


lemma id_unique:
  assumes "distinct (map Id C)" "c \<in> set C" "c' \<in> set C" "Id c = Id c'"
  shows "c = c'"
proof -
  have "inj_on Id (set C)" using assms(1) by (simp add: distinct_map)
  then show ?thesis using assms(2,3,4) by (auto dest: inj_onD)
qed

lemma chain_unique:
  assumes dist: "distinct (map Id C)"
  shows "chain C p \<Longrightarrow> chain C q \<Longrightarrow> hd p = hd q \<Longrightarrow> p = q"
proof (induction p arbitrary: q)
  case Nil
  then show ?case by simp
next
  case (Cons x xs)
  obtain x' xs' where q: "q = x' # xs'" using Cons.prems(2) by (cases q) auto
  have xx: "x = x'" using Cons.prems(3) q by simp
  show ?case
  proof (cases xs)
    case Nil
    then obtain c where c: "c \<in> set C" "Id c = x" "ReplyID c = 0"
      using Cons.prems(1) by auto
    show ?thesis
    proof (cases xs')
      case Nil
      then show ?thesis using \<open>xs = []\<close> q xx by simp
    next
      case (Cons y' zs')
      then obtain c' where c': "c' \<in> set C" "Id c' = x'" "ReplyID c' = y'" "y' \<noteq> 0"
        using Cons.prems(2) q by auto
      have "Id c = Id c'" using c(2) c'(2) xx by simp
      with dist c(1) c'(1) have "c = c'" by (rule id_unique)
      then show ?thesis using c(3) c'(3,4) by simp
    qed
  next
    case (Cons y zs)
    then obtain c where c: "c \<in> set C" "Id c = x" "ReplyID c = y" "y \<noteq> 0"
      and ch: "chain C xs"
      using Cons.prems(1) by auto
    show ?thesis
    proof (cases xs')
      case Nil
      then obtain c' where c': "c' \<in> set C" "Id c' = x'" "ReplyID c' = 0"
        using Cons.prems(2) q by auto
      have "Id c = Id c'" using c(2) c'(2) xx by simp
      with dist c(1) c'(1) have "c = c'" by (rule id_unique)
      then show ?thesis using c(3,4) c'(3) by simp
    next
      case (Cons y' zs')
      then obtain c' where c': "c' \<in> set C" "Id c' = x'" "ReplyID c' = y'"
        and ch': "chain C xs'"
        using Cons.prems(2) q by auto
      have "Id c = Id c'" using c(2) c'(2) xx by simp
      with dist c(1) c'(1) have "c = c'" by (rule id_unique)
      then have "hd xs = hd xs'" using c(3) c'(3) \<open>xs = y # zs\<close> Cons by simp
      with ch ch' have "xs = xs'" by (rule Cons.IH)
      then show ?thesis using q xx by simp
    qed
  qed
qed

lemma rpaths_chain:
  "good C t \<Longrightarrow> strip t \<in> set C \<Longrightarrow> chain C (Id t # acc) \<Longrightarrow> q \<in> set (rpaths acc t)
   \<Longrightarrow> chain C q"
proof (induction t arbitrary: acc rule: subtrees.induct)
  case (1 i a t p r rs)
  let ?t = "Comment i a t p r rs"
  from "1.prems"(4) have "q = i # acc \<or> (\<exists>u \<in> set rs. q \<in> set (rpaths (i # acc) u))"
    by auto
  then show ?case
  proof
    assume "q = i # acc"
    then show ?thesis using "1.prems"(3) by simp
  next
    assume "\<exists>u \<in> set rs. q \<in> set (rpaths (i # acc) u)"
    then obtain u where u: "u \<in> set rs" "q \<in> set (rpaths (i # acc) u)" by blast
    have gu: "strip u \<in> set C \<and> ReplyID u = Id ?t \<and> ReplyID u \<noteq> 0 \<and> good C u"
      using "1.prems"(1) by (rule good_reply_in) (simp add: u(1))
    then have "\<exists>c \<in> set C. Id c = Id u \<and> ReplyID c = i \<and> i \<noteq> 0"
      by (intro bexI [of _ "strip u"]) simp_all
    then have "chain C (Id u # i # acc)" using "1.prems"(3) by simp
    with u(1) gu show ?thesis using u(2) by (intro "1.IH" [of u "i # acc"]) simp_all
  qed
qed

lemma distinct_concat_key:
  assumes "distinct (map g xs)"
    and "\<And>x. x \<in> set xs \<Longrightarrow> distinct (f x)"
    and "\<And>x q. x \<in> set xs \<Longrightarrow> q \<in> set (f x) \<Longrightarrow> key q = g x"
  shows "distinct (concat (map f xs))"
  using assms
proof (induction xs)
  case Nil
  then show ?case by simp
next
  case (Cons x xs)
  have d: "distinct (f x)" using Cons.prems(2) by simp
  have r: "distinct (concat (map f xs))"
    using Cons.prems by (intro Cons.IH) simp_all
  have "set (f x) \<inter> set (concat (map f xs)) = {}"
  proof (rule ccontr)
    assume "set (f x) \<inter> set (concat (map f xs)) \<noteq> {}"
    then obtain q y where q: "q \<in> set (f x)" "y \<in> set xs" "q \<in> set (f y)" by auto
    have "key q = g x" using Cons.prems(3) [of x q] q(1) by simp
    moreover have "key q = g y" using Cons.prems(3) [of y q] q(2,3) by simp
    ultimately have "g x = g y" by simp
    then have "g x \<in> g ` set xs" using q(2) by (simp only: image_eqI)
    then show False using Cons.prems(1) by simp
  qed
  then show ?case using d r by simp
qed

lemma good_replies_distinct:
  assumes "distinct (map Id C)" "good C t"
  shows "distinct (map Id (Replies t))"
proof -
  have "map Id (Replies t) = map Id (map strip (Replies t))" by (simp add: comp_def)
  also have "\<dots> = map Id (filter (\<lambda>c. ReplyID c \<noteq> 0 \<and> ReplyID c = Id t) C)"
    using assms(2) by (simp only: good_iff [of C t])
  finally show ?thesis using assms(1) by (simp add: distinct_map_filter)
qed

lemma rpaths_distinct:
  assumes dist: "distinct (map Id C)"
  shows "good C t \<Longrightarrow> distinct (rpaths acc t)"
proof (induction t arbitrary: acc rule: subtrees.induct)
  case (1 i a t p r rs)
  let ?t = "Comment i a t p r rs"
  have "distinct (map Id rs)"
    using good_replies_distinct [OF dist "1.prems"] by simp
  then have d: "distinct (concat (map (rpaths (i # acc)) rs))"
  proof (rule distinct_concat_key [where key = "\<lambda>q. rev q ! length (i # acc)"])
    fix u
    assume u: "u \<in> set rs"
    then have "good C u" using "1.prems" by simp
    with u show "distinct (rpaths (i # acc) u)" by (rule "1.IH")
  next
    fix u q
    assume "u \<in> set rs" "q \<in> set (rpaths (i # acc) u)"
    then have "suffix (Id u # i # acc) q" by (intro rpaths_suffix)
    then show "rev q ! length (i # acc) = Id u" by (rule suffix_key)
  qed
  have "i # acc \<notin> set (concat (map (rpaths (i # acc)) rs))"
  proof
    assume "i # acc \<in> set (concat (map (rpaths (i # acc)) rs))"
    then obtain u where "u \<in> set rs" "i # acc \<in> set (rpaths (i # acc) u)" by auto
    then have "suffix (Id u # i # acc) (i # acc)" by (intro rpaths_suffix)
    then have "length (Id u # i # acc) \<le> length (i # acc)" by (rule suffix_length_le)
    then show False by simp
  qed
  then show ?case using d by simp
qed


lemma map_hd_forest: "map hd (concat (map (rpaths []) F)) = map Id (forest_nodes F)"
  unfolding forest_nodes_def by (induction F) (simp_all add: map_hd_rpaths)

lemma root_in:
  assumes "map strip out = filter (\<lambda>c. ReplyID c = 0) C" "t \<in> set out"
  shows "strip t \<in> set C \<and> ReplyID t = 0"
proof -
  have "strip t \<in> set (map strip out)" using assms(2) by simp
  then have "strip t \<in> set (filter (\<lambda>c. ReplyID c = 0) C)" unfolding assms(1) .
  then have "strip t \<in> set C" "ReplyID (strip t) = 0" by simp_all
  then show ?thesis by simp
qed

lemma forest_distinct:
  assumes dist: "distinct (map Id C)"
    and roots: "map strip out = filter (\<lambda>c. ReplyID c = 0) C"
    and good: "\<forall>t \<in> set out. good C t"
  shows "distinct (map Id (forest_nodes out))"
proof -
  let ?ps = "concat (map (rpaths []) out)"
  have "map Id out = map Id (map strip out)" by (simp add: comp_def)
  also have "\<dots> = map Id (filter (\<lambda>c. ReplyID c = 0) C)" by (simp only: roots)
  finally have "distinct (map Id out)" using dist by (simp add: distinct_map_filter)
  then have d: "distinct ?ps"
  proof (rule distinct_concat_key [where key = "\<lambda>q. rev q ! length ([] :: int list)"])
    fix t
    assume "t \<in> set out"
    then have "good C t" using good by simp
    with dist show "distinct (rpaths [] t)" by (rule rpaths_distinct)
  next
    fix t q
    assume "t \<in> set out" "q \<in> set (rpaths [] t)"
    then have "suffix (Id t # []) q" by (intro rpaths_suffix)
    then show "rev q ! length ([] :: int list) = Id t" by (rule suffix_key)
  qed
  have ch: "chain C q" if q: "q \<in> set ?ps" for q
  proof -
    obtain t where t: "t \<in> set out" "q \<in> set (rpaths [] t)" using q by auto
    have r: "strip t \<in> set C \<and> ReplyID t = 0" using roots t(1) by (rule root_in)
    then have "\<exists>c \<in> set C. Id c = Id t \<and> ReplyID c = 0"
      by (intro bexI [of _ "strip t"]) simp_all
    then have "chain C (Id t # [])" by simp
    moreover have "good C t" using good t(1) by simp
    ultimately show ?thesis using r t(2) by (intro rpaths_chain [of C t "[]" q]) simp_all
  qed
  have "inj_on hd (set ?ps)"
  proof (rule inj_onI)
    fix p q
    assume "p \<in> set ?ps" "q \<in> set ?ps" "hd p = hd q"
    then show "p = q" using chain_unique [OF dist] ch by blast
  qed
  with d have "distinct (map hd ?ps)" by (simp add: distinct_map)
  then show ?thesis by (simp only: map_hd_forest)
qed

lemma forest_nodes_mem: "w \<in> set (forest_nodes F) \<longleftrightarrow> (\<exists>t \<in> set F. w \<in> set (subtrees t))"
  by (auto simp: forest_nodes_def)

lemma subtrees_parent:
  "w \<in> set (subtrees t) \<Longrightarrow> w = t \<or> (\<exists>v \<in> set (subtrees t). w \<in> set (Replies v))"
proof (induction t rule: subtrees.induct)
  case (1 i a t p r rs)
  let ?t = "Comment i a t p r rs"
  from "1.prems" have "w = ?t \<or> (\<exists>u \<in> set rs. w \<in> set (subtrees u))"
    by auto
  then show ?case
  proof
    assume "w = ?t"
    then show ?thesis by simp
  next
    assume "\<exists>u \<in> set rs. w \<in> set (subtrees u)"
    then obtain u where u: "u \<in> set rs" "w \<in> set (subtrees u)" by blast
    then have "w = u \<or> (\<exists>v \<in> set (subtrees u). w \<in> set (Replies v))" by (rule "1.IH")
    then have "\<exists>v \<in> set (subtrees ?t). w \<in> set (Replies v)"
    proof
      assume "w = u"
      then have "w \<in> set (Replies ?t)" using u(1) by simp
      moreover have "?t \<in> set (subtrees ?t)" by simp
      ultimately show ?thesis by blast
    next
      assume "\<exists>v \<in> set (subtrees u). w \<in> set (Replies v)"
      then obtain v where v: "v \<in> set (subtrees u)" "w \<in> set (Replies v)" by blast
      have "v \<in> set (subtrees ?t)" using v(1) u(1) by auto
      then show ?thesis using v(2) by blast
    qed
    then show ?thesis by simp
  qed
qed

lemma ToTree_unique:
  assumes "ToTree n C = Some out" "ToTree k C = Some out'"
  shows "out' = out"
proof -
  have "ToTree (max n k) C = Some out" using assms(1) by (rule ToTree_mono) simp
  moreover have "ToTree (max n k) C = Some out'" using assms(2) by (rule ToTree_mono) simp
  ultimately show ?thesis by simp
qed

text \<open>
  C1, as the code has it: for a flat list of comments with pairwise distinct ids and
  without a cycle of replies (some rank of the ids grows from each comment to each reply
  to it), \<^verbatim>\<open>ToTree\<close> returns a forest, the same for every bound on the depth of \<^verbatim>\<open>dig\<close>
  that lets it return. Its roots are the comments of the input with reply id 0, each once
  and in the order of the input; no two comments of the forest have the same id, and each
  is a comment of the input, a root or a reply to an id of the input (a comment that
  replies to an id absent from the input is not in the forest); and the replies of every
  comment of the forest are the comments of the input that reply to its id, in the order
  of the input.
\<close>

theorem ToTree_forest:
  fixes rank :: "int \<Rightarrow> nat"
  assumes dist: "distinct (map Id C)"
    and flat: "\<forall>c \<in> set C. Replies c = []"
    and rank: "\<forall>c \<in> set C. \<forall>p \<in> set C.
                 ReplyID c \<noteq> 0 \<and> ReplyID c = Id p \<longrightarrow> rank (Id p) < rank (Id c)"
  shows "\<exists>out. (\<forall>n > sum_list (map (\<lambda>c. rank (Id c)) C). ToTree n C = Some out)
     \<and> (\<forall>n out'. ToTree n C = Some out' \<longrightarrow> out' = out)
     \<and> map strip out = filter (\<lambda>c. ReplyID c = 0) C
     \<and> length out = length (filter (\<lambda>c. ReplyID c = 0) C)
     \<and> distinct (map Id (forest_nodes out))
     \<and> set (map strip (forest_nodes out)) \<subseteq> set C
     \<and> (\<forall>w \<in> set (forest_nodes out). ReplyID w = 0 \<or> ReplyID w \<in> Id ` set C)
     \<and> (\<forall>w \<in> set (forest_nodes out).
           map strip (Replies w) = filter (\<lambda>c. ReplyID c \<noteq> 0 \<and> ReplyID c = Id w) C)"
proof -
  let ?B = "sum_list (map (\<lambda>c. rank (Id c)) C)"
  have "\<forall>c \<in> set C. rank (Id c) \<le> ?B" by (rule rank_bounded)
  with rank have "\<exists>out. ToTree (Suc ?B) C = Some out" by (rule ToTree_terminates_bound)
  then obtain out where out: "ToTree (Suc ?B) C = Some out" ..
  have t1: "\<forall>n > ?B. ToTree n C = Some out"
  proof (intro allI impI)
    fix n
    assume "?B < n"
    then have "Suc ?B \<le> n" by simp
    with out show "ToTree n C = Some out" by (rule ToTree_mono)
  qed
  have t2: "\<forall>n out'. ToTree n C = Some out' \<longrightarrow> out' = out"
    using ToTree_unique [OF out] by blast
  have rg: "map strip out = filter (\<lambda>c. ReplyID c = 0) C \<and> (\<forall>t \<in> set out. good C t)"
    using rank dist flat out by (rule ToTree_roots_good)
  then have roots: "map strip out = filter (\<lambda>c. ReplyID c = 0) C"
    and good: "\<forall>t \<in> set out. good C t" by simp_all
  have t4: "length out = length (filter (\<lambda>c. ReplyID c = 0) C)"
    using roots by (metis length_map)
  have t5: "distinct (map Id (forest_nodes out))"
    using dist roots good by (rule forest_distinct)
  have t6: "set (map strip (forest_nodes out)) \<subseteq> set C"
  proof
    fix x
    assume "x \<in> set (map strip (forest_nodes out))"
    then obtain w t where w: "x = strip w" "t \<in> set out" "w \<in> set (subtrees t)"
      by (auto simp: forest_nodes_mem)
    have "strip t \<in> set C \<and> ReplyID t = 0" using roots w(2) by (rule root_in)
    moreover have "good C t" using good w(2) by simp
    ultimately have "strip w \<in> set C" using w(3) by (intro good_subtrees_in [of C t w]) simp_all
    then show "x \<in> set C" using w(1) by simp
  qed
  have t7: "\<forall>w \<in> set (forest_nodes out).
           map strip (Replies w) = filter (\<lambda>c. ReplyID c \<noteq> 0 \<and> ReplyID c = Id w) C"
  proof
    fix w
    assume "w \<in> set (forest_nodes out)"
    then obtain t where t: "t \<in> set out" "w \<in> set (subtrees t)"
      by (auto simp: forest_nodes_mem)
    have "good C t" using good t(1) by simp
    then have "good C w" using t(2) by (rule good_subtrees)
    then show "map strip (Replies w) = filter (\<lambda>c. ReplyID c \<noteq> 0 \<and> ReplyID c = Id w) C"
      by (simp only: good_iff [of C w])
  qed
  have t8: "\<forall>w \<in> set (forest_nodes out). ReplyID w = 0 \<or> ReplyID w \<in> Id ` set C"
  proof
    fix w
    assume "w \<in> set (forest_nodes out)"
    then obtain t where t: "t \<in> set out" "w \<in> set (subtrees t)"
      by (auto simp: forest_nodes_mem)
    have rt: "strip t \<in> set C \<and> ReplyID t = 0" using roots t(1) by (rule root_in)
    have gt: "good C t" using good t(1) by simp
    from t(2) have "w = t \<or> (\<exists>v \<in> set (subtrees t). w \<in> set (Replies v))"
      by (rule subtrees_parent)
    then show "ReplyID w = 0 \<or> ReplyID w \<in> Id ` set C"
    proof
      assume "w = t"
      then show ?thesis using rt by simp
    next
      assume "\<exists>v \<in> set (subtrees t). w \<in> set (Replies v)"
      then obtain v where v: "v \<in> set (subtrees t)" "w \<in> set (Replies v)" by blast
      have "good C v" using gt v(1) by (rule good_subtrees)
      then have "strip w \<in> set C \<and> ReplyID w = Id v \<and> ReplyID w \<noteq> 0 \<and> good C w"
        using v(2) by (rule good_reply_in)
      moreover have "strip v \<in> set C" using gt rt v(1) by (intro good_subtrees_in [of C t v]) simp_all
      then have "Id (strip v) \<in> Id ` set C" by (rule imageI)
      ultimately show ?thesis by simp
    qed
  qed
  show ?thesis using t1 t2 roots t4 t5 t6 t7 t8 by blast
qed


text \<open>
  C1, as stated, fails on a list in which two comments have the same id: the reply to
  that id, one comment of the input, is in the forest twice. It fails as well on a list
  with a cycle of replies, on which \<^verbatim>\<open>ToTree\<close> returns no forest.
\<close>

theorem ToTree_duplicate_ids_counterexample:
  "ToTree 2 dup_in = Some dup_out
   \<and> count_list dup_in (cm 3 2 []) = 1
   \<and> count_list (map strip (forest_nodes dup_out)) (cm 3 2 []) = 2
   \<and> \<not> (\<exists>n out. ToTree n cyclic_in = Some out)"
proof -
  have "ToTree 2 dup_in = Some dup_out" by code_simp
  moreover have "count_list dup_in (cm 3 2 []) = 1"
    by (simp add: dup_in_def cm_def)
  moreover have "count_list (map strip (forest_nodes dup_out)) (cm 3 2 []) = 2"
    by (simp add: dup_out_def forest_nodes_def cm_def strip_def)
  moreover have "\<not> (\<exists>n out. ToTree n cyclic_in = Some out)"
    by (simp add: cyclic_ToTree)
  ultimately show ?thesis by blast
qed

text \<open>
  The comments of the test are flat, their ids are distinct and are themselves a rank:
  the forest of the test has the four roots of the input, and no id twice.
\<close>

theorem ToTree_forest_witness:
  "ToTree 106 test_in = Some test_want
   \<and> map strip test_want = filter (\<lambda>c. ReplyID c = 0) test_in
   \<and> length test_want = 4
   \<and> distinct (map Id (forest_nodes test_want))"
proof -
  have d: "distinct (map Id test_in)" by (simp add: test_in_def cm_def)
  have f: "\<forall>c \<in> set test_in. Replies c = []" by (simp add: test_in_def cm_def)
  have r: "\<forall>c \<in> set test_in. \<forall>p \<in> set test_in.
      ReplyID c \<noteq> 0 \<and> ReplyID c = Id p \<longrightarrow> nat (Id p) < nat (Id c)"
    by (simp add: test_in_def cm_def)
  have s: "sum_list (map (\<lambda>c. nat (Id c)) test_in) = 105"
    by (simp add: test_in_def cm_def)
  have l: "length (filter (\<lambda>c. ReplyID c = 0) test_in) = 4"
    by (simp add: test_in_def cm_def)
  obtain out where o: "\<forall>n > 105. ToTree n test_in = Some out"
      "map strip out = filter (\<lambda>c. ReplyID c = 0) test_in"
      "length out = length (filter (\<lambda>c. ReplyID c = 0) test_in)"
      "distinct (map Id (forest_nodes out))"
    using ToTree_forest [OF d f r] unfolding s by blast
  have "ToTree 106 test_in = Some out" using o(1) by simp
  moreover have "ToTree 106 test_in = Some test_want" by (simp add: ToTree_test_fuel)
  ultimately have "out = test_want" by simp
  then show ?thesis using o(2,3,4) l \<open>ToTree 106 test_in = Some test_want\<close> by simp
qed
lemma itoa_1: "itoa (Suc 0) = ''1''" by (simp add: itoa.simps)
lemma itoa_2: "itoa 2 = ''2''" by (simp add: itoa.simps)
lemma itoa_3: "itoa 3 = ''3''" by (simp add: itoa.simps)

lemma itoa_SS: "itoa (Suc (Suc 0)) = ''2''" "itoa (Suc (Suc (Suc 0))) = ''3''"
  by (simp_all add: itoa.simps)

lemma offset_exact:
  fixes p :: "64 word"
  assumes "2 \<le> sint p" "sint p \<le> 922337203685477581"
  shows "sint ((p - 1) * 10) = (sint p - 1) * 10"
proof -
  have "sint (p - 1) = signed_take_bit (LENGTH(64) - 1) (sint p - sint (1 :: 64 word))"
    by (rule sint_word_diff)
  also have "\<dots> = sint p - 1"
    using assms by (simp add: signed_take_bit_int_eq_self)
  finally have a: "sint (p - 1) = sint p - 1" .
  have "sint ((p - 1) * 10) =
          signed_take_bit (LENGTH(64) - 1) (sint (p - 1) * sint (10 :: 64 word))"
    by (rule sint_word_mult)
  also have "\<dots> = signed_take_bit 63 ((sint p - 1) * 10)"
    by (simp only: a) simp
  also have "\<dots> = (sint p - 1) * 10"
    using assms by (intro signed_take_bit_int_eq_self) simp_all
  finally show ?thesis .
qed

text \<open>
  C5, as the code has it: for a page below 1 the statement is left as it is (no LIMIT,
  no OFFSET). For page 1 only \<^verbatim>\<open>LIMIT $n\<close> is added, bound to 10: the offset is 0, and
  \<^verbatim>\<open>addLimitOffsetClause\<close> adds OFFSET only for an offset above 0. For a page from 2 up
  to 922337203685477581 (beyond it the product leaves the 64 bits of \<^verbatim>\<open>int\<close>) the clause is
  \<^verbatim>\<open>LIMIT $n OFFSET $n+1\<close>, bound to 10 and to \<open>(page - 1) * 10\<close>.
\<close>

theorem addLimitOffsetClause_pages:
  "(Page f <s 1 \<longrightarrow> addLimitOffsetClause f stmt = stmt)
   \<and> (Page f = 1 \<longrightarrow> addLimitOffsetClause f stmt =
          \<lparr>sql = sql stmt @ '' LIMIT $'' @ itoa (length (args stmt) + 1),
           args = args stmt @ [ArgInt 10]\<rparr>)
   \<and> (2 \<le> sint (Page f) \<and> sint (Page f) \<le> 922337203685477581 \<longrightarrow>
          addLimitOffsetClause f stmt =
            \<lparr>sql = sql stmt @ '' LIMIT $'' @ itoa (length (args stmt) + 1)
                   @ '' OFFSET $'' @ itoa (length (args stmt) + 2),
             args = args stmt @ [ArgInt 10, ArgInt ((Page f - 1) * 10)]\<rparr>
          \<and> sint ((Page f - 1) * 10) = (sint (Page f) - 1) * 10)"
proof (intro conjI impI)
  assume "Page f <s 1"
  then show "addLimitOffsetClause f stmt = stmt"
    by (simp add: addLimitOffsetClause_def calcLimitOffset_def)
next
  assume "Page f = 1"
  then show "addLimitOffsetClause f stmt =
          \<lparr>sql = sql stmt @ '' LIMIT $'' @ itoa (length (args stmt) + 1),
           args = args stmt @ [ArgInt 10]\<rparr>"
    by (simp add: addLimitOffsetClause_def calcLimitOffset_def PageSize_def word_sless_alt)
next
  assume b: "2 \<le> sint (Page f) \<and> sint (Page f) \<le> 922337203685477581"
  then have e: "sint ((Page f - 1) * 10) = (sint (Page f) - 1) * 10"
    using offset_exact [of "Page f"] by blast
  then show "sint ((Page f - 1) * 10) = (sint (Page f) - 1) * 10" .
  have "\<not> Page f <s 1" using b by (simp add: word_sless_alt)
  moreover have "0 <s (Page f - 1) * 10" using b by (simp only: word_sless_alt e) simp
  ultimately show "addLimitOffsetClause f stmt =
            \<lparr>sql = sql stmt @ '' LIMIT $'' @ itoa (length (args stmt) + 1)
                   @ '' OFFSET $'' @ itoa (length (args stmt) + 2),
             args = args stmt @ [ArgInt 10, ArgInt ((Page f - 1) * 10)]\<rparr>"
    by (simp add: addLimitOffsetClause_def calcLimitOffset_def PageSize_def word_sless_alt)
qed

text \<open>
  C5, as stated, fails at page 1: the statement of \<^verbatim>\<open>Items\<close> for the filter of a request
  without parameters ends with \<^verbatim>\<open>LIMIT $1\<close>, and no \<^verbatim>\<open>OFFSET\<close> bound to 0 follows.
\<close>

theorem page_one_counterexample:
  "Items_stmt filter0 =
     \<lparr>sql = ''SELECT id, title, description, pub_date, link FROM news ORDER BY pub_date DESC LIMIT $1'',
      args = [ArgInt 10]\<rparr>
   \<and> Items_stmt filter0 \<noteq>
     \<lparr>sql = ''SELECT id, title, description, pub_date, link FROM news ORDER BY pub_date DESC LIMIT $1 OFFSET $2'',
      args = [ArgInt 10, ArgInt 0]\<rparr>"
  by (simp add: Items_stmt_def filter0_def zeroTF_def addLimitOffsetClause_def addOrderBy_def
      addWhereClause_def calcLimitOffset_def PageSize_def itoa_1 word_sless_alt)

text \<open>
  The pages 0 and 3 of the same request: no clause, and \<^verbatim>\<open>LIMIT $1 OFFSET $2\<close> bound to
  10 and 20.
\<close>

theorem addLimitOffsetClause_pages_witness:
  "Items_stmt (filter0\<lparr>Page := 0\<rparr>) =
     \<lparr>sql = ''SELECT id, title, description, pub_date, link FROM news ORDER BY pub_date DESC'',
      args = []\<rparr>
   \<and> Items_stmt (filter0\<lparr>Page := 3\<rparr>) =
     \<lparr>sql = ''SELECT id, title, description, pub_date, link FROM news ORDER BY pub_date DESC LIMIT $1 OFFSET $2'',
      args = [ArgInt 10, ArgInt 20]\<rparr>"
  using addLimitOffsetClause_pages [of "filter0\<lparr>Page := 0\<rparr>"
      "addOrderBy (filter0\<lparr>Page := 0\<rparr>) (addWhereClause (filter0\<lparr>Page := 0\<rparr>)
       \<lparr>sql = ''SELECT id, title, description, pub_date, link FROM news'', args = []\<rparr>)"]
    addLimitOffsetClause_pages [of "filter0\<lparr>Page := 3\<rparr>"
      "addOrderBy (filter0\<lparr>Page := 3\<rparr>) (addWhereClause (filter0\<lparr>Page := 3\<rparr>)
       \<lparr>sql = ''SELECT id, title, description, pub_date, link FROM news'', args = []\<rparr>)"]
  by (simp add: Items_stmt_def filter0_def zeroTF_def addOrderBy_def
      addWhereClause_def itoa_1 itoa_SS word_sless_alt)

text \<open>
  C6: the ORDER BY clause is \<^verbatim>\<open>ORDER BY pub_date DESC\<close> when \<^verbatim>\<open>SortBy\<close> is unset; it is
  \<^verbatim>\<open>ORDER BY ts_rank(title_search, to_tsquery('russian', $n)) DESC\<close> when \<^verbatim>\<open>SortBy\<close> is
  \<^verbatim>\<open>Rank\<close> and there are search terms, with the string of \<^verbatim>\<open>searchStr\<close> bound to
  \<open>$n\<close>, the same string that the WHERE clause binds first; otherwise it is the column
  of the sort mode, \<^verbatim>\<open>pub_date\<close>, \<^verbatim>\<open>title\<close> or \<^verbatim>\<open>rank\<close>, so that \<^verbatim>\<open>Rank\<close> without
  search terms gives \<^verbatim>\<open>ORDER BY rank DESC\<close>.
\<close>

theorem addOrderBy_cases:
  "(SortBy f = Empty \<longrightarrow>
      addOrderBy f stmt = stmt\<lparr>sql := sql stmt @ '' ORDER BY pub_date DESC''\<rparr>)
   \<and> (SortBy f = Rank \<and> TitleSearch f \<noteq> [] \<longrightarrow>
      addOrderBy f stmt =
        \<lparr>sql = sql stmt @ '' ORDER BY ts_rank(title_search, to_tsquery('russian', $''
                 @ itoa (length (args stmt) + 1) @ '')) DESC'',
         args = args stmt @ [ArgString (searchStr f)]\<rparr>
      \<and> hd (args (addWhereClause f \<lparr>sql = s, args = []\<rparr>)) = ArgString (searchStr f))
   \<and> (SortBy f = ByDate \<longrightarrow>
      addOrderBy f stmt = stmt\<lparr>sql := sql stmt @ '' ORDER BY pub_date DESC''\<rparr>)
   \<and> (SortBy f = Title \<longrightarrow>
      addOrderBy f stmt = stmt\<lparr>sql := sql stmt @ '' ORDER BY title DESC''\<rparr>)
   \<and> (SortBy f = Rank \<and> TitleSearch f = [] \<longrightarrow>
      addOrderBy f stmt = stmt\<lparr>sql := sql stmt @ '' ORDER BY rank DESC''\<rparr>)"
  by (simp add: addOrderBy_def addWhereClause_def Let_def)

text \<open>
  The statements of \<^verbatim>\<open>Items\<close> for four sort modes, without a page.
\<close>

theorem addOrderBy_cases_witness:
  "Items_stmt (filter0\<lparr>SortBy := Rank, TitleSearch := [''go''], Page := 0\<rparr>) =
     \<lparr>sql = ''SELECT id, title, description, pub_date, link FROM news WHERE title_search @@ to_tsquery('russian', $1) ORDER BY ts_rank(title_search, to_tsquery('russian', $2)) DESC'',
      args = [ArgString ''go'', ArgString ''go'']\<rparr>
   \<and> Items_stmt (filter0\<lparr>SortBy := Rank, Page := 0\<rparr>) =
     \<lparr>sql = ''SELECT id, title, description, pub_date, link FROM news ORDER BY rank DESC'',
      args = []\<rparr>
   \<and> Items_stmt (filter0\<lparr>SortBy := Title, Page := 0\<rparr>) =
     \<lparr>sql = ''SELECT id, title, description, pub_date, link FROM news ORDER BY title DESC'',
      args = []\<rparr>
   \<and> Items_stmt (filter0\<lparr>SortBy := ByDate, Page := 0\<rparr>) = Items_stmt (filter0\<lparr>Page := 0\<rparr>)"
  using addOrderBy_cases [of "filter0\<lparr>SortBy := Rank, TitleSearch := [''go''], Page := 0\<rparr>"
      "addWhereClause (filter0\<lparr>SortBy := Rank, TitleSearch := [''go''], Page := 0\<rparr>)
       \<lparr>sql = ''SELECT id, title, description, pub_date, link FROM news'', args = []\<rparr>" "[]"]
    addOrderBy_cases [of "filter0\<lparr>SortBy := Rank, Page := 0\<rparr>"
      "\<lparr>sql = ''SELECT id, title, description, pub_date, link FROM news'', args = []\<rparr>" "[]"]
    addOrderBy_cases [of "filter0\<lparr>SortBy := Title, Page := 0\<rparr>"
      "\<lparr>sql = ''SELECT id, title, description, pub_date, link FROM news'', args = []\<rparr>" "[]"]
    addOrderBy_cases [of "filter0\<lparr>SortBy := ByDate, Page := 0\<rparr>"
      "\<lparr>sql = ''SELECT id, title, description, pub_date, link FROM news'', args = []\<rparr>" "[]"]
    addOrderBy_cases [of "filter0\<lparr>Page := 0\<rparr>"
      "\<lparr>sql = ''SELECT id, title, description, pub_date, link FROM news'', args = []\<rparr>" "[]"]
  by (simp add: Items_stmt_def filter0_def zeroTF_def addLimitOffsetClause_def
      addWhereClause_def calcLimitOffset_def searchStr_def itoa_1 itoa_SS word_sless_alt)

lemma searchStr_eq:
  "searchStr f = Join (TitleSearch f) ''&''
     @ (if Exclude f = [] then [] else ''&!'' @ Join (Exclude f) ''&!'')"
  by (simp add: searchStr_def)

text \<open>
  C7: on a statement without bound values, a filter with search terms gives the clause
  \<^verbatim>\<open>WHERE title_search @@ to_tsquery('russian', $1)\<close>, and the value bound to \<open>$1\<close> is
  the terms joined by \<open>&\<close>, followed, exactly when there are excluded terms, by \<open>&!\<close>
  and the excluded terms joined by \<open>&!\<close>; the date clauses follow with \<^verbatim>\<open>AND\<close>. A
  filter without search terms gives the date clauses alone, and no full-text clause.
\<close>

theorem addWhereClause_fulltext:
  "(TitleSearch f \<noteq> [] \<longrightarrow>
      addWhereClause f \<lparr>sql = s, args = []\<rparr> =
        \<lparr>sql = s @ '' WHERE title_search @@ to_tsquery('russian', $1)''
               @ (if 0 <s Value (Date f)
                  then '' AND pub_date '' @ Operator (Date f) @ '' $2''
                       @ (if 0 <s Value (EndDate f)
                          then '' AND pub_date '' @ Operator (EndDate f) @ '' $3'' else [])
                  else []),
         args = ArgString (Join (TitleSearch f) ''&''
                   @ (if Exclude f = [] then [] else ''&!'' @ Join (Exclude f) ''&!''))
               # (if 0 <s Value (Date f)
                  then ArgInt64 (Value (Date f))
                       # (if 0 <s Value (EndDate f) then [ArgInt64 (Value (EndDate f))] else [])
                  else [])\<rparr>)
   \<and> (TitleSearch f = [] \<longrightarrow>
      addWhereClause f \<lparr>sql = s, args = []\<rparr> =
        \<lparr>sql = s @ (if 0 <s Value (Date f)
                    then '' WHERE pub_date '' @ Operator (Date f) @ '' $1''
                         @ (if 0 <s Value (EndDate f)
                            then '' AND pub_date '' @ Operator (EndDate f) @ '' $2'' else [])
                    else []),
         args = (if 0 <s Value (Date f)
                 then ArgInt64 (Value (Date f))
                      # (if 0 <s Value (EndDate f) then [ArgInt64 (Value (EndDate f))] else [])
                 else [])\<rparr>)"
  by (simp add: addWhereClause_def Let_def searchStr_eq itoa_1 itoa_SS)

text \<open>
  The statements of \<^verbatim>\<open>CountItems\<close> with and without excluded terms, and without search
  terms.
\<close>

theorem addWhereClause_fulltext_witness:
  "CountItems_stmt filter_go =
     \<lparr>sql = ''SELECT COUNT(id) FROM news WHERE title_search @@ to_tsquery('russian', $1) AND pub_date > $2'',
      args = [ArgString ''go&db&!php&!java'', ArgInt64 1659344500]\<rparr>
   \<and> CountItems_stmt (filter_go\<lparr>Exclude := []\<rparr>) =
     \<lparr>sql = ''SELECT COUNT(id) FROM news WHERE title_search @@ to_tsquery('russian', $1) AND pub_date > $2'',
      args = [ArgString ''go&db'', ArgInt64 1659344500]\<rparr>
   \<and> CountItems_stmt (filter_go\<lparr>TitleSearch := []\<rparr>) =
     \<lparr>sql = ''SELECT COUNT(id) FROM news WHERE pub_date > $1'',
      args = [ArgInt64 1659344500]\<rparr>"
  using addWhereClause_fulltext [of filter_go "''SELECT COUNT(id) FROM news''"]
    addWhereClause_fulltext [of "filter_go\<lparr>Exclude := []\<rparr>" "''SELECT COUNT(id) FROM news''"]
    addWhereClause_fulltext [of "filter_go\<lparr>TitleSearch := []\<rparr>" "''SELECT COUNT(id) FROM news''"]
  by (simp add: CountItems_stmt_def filter_go_def zeroTF_def word_sless_alt)

lemma tryLayouts_all_fail:
  "ls \<noteq> [] \<Longrightarrow> \<forall>l \<in> set ls. snd (parse l s) \<noteq> None \<Longrightarrow>
   tryLayouts parse ls s acc = parse (last ls) s"
proof (induction ls arbitrary: acc)
  case Nil
  then show ?case by simp
next
  case (Cons l ls)
  obtain pt e where p: "parse l s = (pt, Some e)"
    using Cons.prems(2) by (cases "parse l s") auto
  show ?case
  proof (cases "ls = []")
    case True
    then show ?thesis using p by simp
  next
    case False
    then show ?thesis using Cons p by simp
  qed
qed

lemma tryLayouts_first:
  "i < length ls \<Longrightarrow> snd (parse (ls ! i) s) = None \<Longrightarrow>
   \<forall>j < i. snd (parse (ls ! j) s) \<noteq> None \<Longrightarrow>
   tryLayouts parse ls s acc = (fst (parse (ls ! i) s), None)"
proof (induction ls arbitrary: i acc)
  case Nil
  then show ?case by simp
next
  case (Cons l ls)
  show ?case
  proof (cases i)
    case 0
    then show ?thesis using Cons.prems(2) by (cases "parse l s") auto
  next
    case (Suc k)
    have "snd (parse l s) \<noteq> None" using Cons.prems(3) Suc by auto
    then obtain pt e where p: "parse l s = (pt, Some e)"
      by (cases "parse l s") auto
    have "tryLayouts parse ls s (pt, Some e) = (fst (parse (ls ! k) s), None)"
      using Cons.prems Suc by (intro Cons.IH) auto
    then show ?thesis using p Suc by simp
  qed
qed

text \<open>
  C4, as the code has it: the layouts are tried in the order of the list, and the first
  one that parses gives the value, without an error. When every layout fails,
  \<^verbatim>\<open>unix.UnmarshalXML\<close> returns the error of the last layout, \<^verbatim>\<open>RFC822Z\<close>, the value it
  leaves is the Unix time of what that last call returned, and \<^verbatim>\<open>Item.UnmarshalXML\<close>
  returns the error: no item is decoded.
\<close>

theorem unix_UnmarshalXML_layouts:
  "(i < length layouts \<and> snd (parse (layouts ! i) s) = None
      \<and> (\<forall>j < i. snd (parse (layouts ! j) s) \<noteq> None) \<longrightarrow>
      unix_UnmarshalXML parse (Inr s) = (Some (Unix (fst (parse (layouts ! i) s))), None))
   \<and> ((\<forall>l \<in> set layouts. snd (parse l s) \<noteq> None) \<longrightarrow>
      unix_UnmarshalXML parse (Inr s)
        = (Some (Unix (fst (parse RFC822Z s))), snd (parse RFC822Z s))
      \<and> Item_UnmarshalXML parse StripTags title s description link
        = Inl (the (snd (parse RFC822Z s))))"
proof (intro conjI impI)
  assume "i < length layouts \<and> snd (parse (layouts ! i) s) = None
      \<and> (\<forall>j < i. snd (parse (layouts ! j) s) \<noteq> None)"
  then have "tryLayouts parse layouts s (zeroTime, None) = (fst (parse (layouts ! i) s), None)"
    by (intro tryLayouts_first) blast+
  then show "unix_UnmarshalXML parse (Inr s) = (Some (Unix (fst (parse (layouts ! i) s))), None)"
    by (simp add: unix_UnmarshalXML_def)
next
  assume a: "\<forall>l \<in> set layouts. snd (parse l s) \<noteq> None"
  have l: "last layouts = RFC822Z" "layouts \<noteq> []" by (simp_all add: layouts_def)
  have t: "tryLayouts parse layouts s (zeroTime, None) = parse RFC822Z s"
    using tryLayouts_all_fail [of layouts parse s "(zeroTime, None)"] l a by simp
  show u: "unix_UnmarshalXML parse (Inr s)
        = (Some (Unix (fst (parse RFC822Z s))), snd (parse RFC822Z s))"
    by (simp add: unix_UnmarshalXML_def t split: prod.splits)
  have "snd (parse RFC822Z s) \<noteq> None" using a by (simp add: layouts_def)
  then show "Item_UnmarshalXML parse StripTags title s description link
        = Inl (the (snd (parse RFC822Z s)))"
    by (auto simp add: Item_UnmarshalXML_def u)
qed

text \<open>
  C4, as stated, fails when no layout parses: decoding the item returns the error of the
  last layout rather than an item whose date is 0, and the value left by
  \<^verbatim>\<open>unix.UnmarshalXML\<close> is the Unix time of the zero \<^verbatim>\<open>Time\<close>, which is not 0.
\<close>

theorem pubDate_total_failure_counterexample:
  "Item_UnmarshalXML parse_none id ''title'' ''yesterday'' ''text'' ''link''
     = Inl ''cannot parse yesterday as 02 Jan 06 15:04 -0700''
   \<and> unix_UnmarshalXML parse_none (Inr ''yesterday'')
     = (Some (- 62135596800), Some ''cannot parse yesterday as 02 Jan 06 15:04 -0700'')
   \<and> sint (- 62135596800 :: 64 word) \<noteq> 0"
  by (simp add: Item_UnmarshalXML_def unix_UnmarshalXML_def layouts_def parse_none_def
      zeroTime_def RFC822Z_def)

text \<open>
  A date in the second layout, and a text in no layout.
\<close>

theorem unix_UnmarshalXML_layouts_witness:
  "unix_UnmarshalXML parse_RFC1123 (Inr ''Mon, 01 Aug 2022 09:01:40 UTC'') = (Some 1659344500, None)
   \<and> unix_UnmarshalXML parse_none (Inr ''yesterday'')
     = (Some (Unix zeroTime), Some ''cannot parse yesterday as 02 Jan 06 15:04 -0700'')"
  using unix_UnmarshalXML_layouts [of 1 parse_RFC1123 "''Mon, 01 Aug 2022 09:01:40 UTC''"]
    unix_UnmarshalXML_layouts [of 0 parse_none "''yesterday''"]
  by (simp add: layouts_def parse_RFC1123_def parse_none_def RFC1123Z_def RFC1123_def
      RFC822Z_def)

lemma ParseInt_1: "ParseInt ''1'' = Some 1"
  by (simp add: ParseInt_def digitVal_def)

lemma itemHandler_Failed:
  "itemHandler (postgres_Item db) s =
     (case ParseInt s of
        None \<Rightarrow> (404, JSON_string ''not found'')
      | Some ident \<Rightarrow>
          (case db ident of
             Row it \<Rightarrow> (200, JSON_item it)
           | NoRows \<Rightarrow> (404, JSON_string ''not found'')
           | Failed e \<Rightarrow> (404, JSON_string ''not found'')
           | ScanFailed k row e \<Rightarrow>
               if scanned k row = zeroItem then (404, JSON_string ''not found'')
               else (500, JSON_error ''internal server error'')))"
  by (simp add: itemHandler_def postgres_Item_def split: option.splits query_result.splits)

text \<open>
  C8 on the code: when the query of \<^verbatim>\<open>Postgres.Item\<close> fails before a column is read
  (here, the connection is refused), \<^verbatim>\<open>itemHandler\<close> answers 404, since the item returned
  with the error is the zero item. The answer 500 is given only when \<^verbatim>\<open>Scan\<close> fails after
  it has written a column, as on a row whose \<^verbatim>\<open>pub_date\<close> is NULL.
\<close>

theorem itemHandler_store_failure:
  "itemHandler (postgres_Item (\<lambda>i. Failed ''connection refused'')) ''1''
     = (404, JSON_string ''not found'')
   \<and> itemHandler (postgres_Item (\<lambda>i. ScanFailed 3 null_date_row ''cannot scan NULL'')) ''1''
     = (500, JSON_error ''internal server error'')"
  by (simp add: itemHandler_Failed ParseInt_1 scanned_def null_date_row_def zeroItem_def)











text \<open>
  C3 on the code: for a comment with no news id and the reply id 2,
  \<^verbatim>\<open>handleCommentCreate\<close> answers 400 and does not call the store, whose
  \<^verbatim>\<open>createComment\<close> would have read the news id from comment 2.
\<close>

theorem handleCommentCreate_reply_without_news_id:
  "handleCommentCreate Create db (Inr reply_comment)
     = ((400, Error_body ''invalid input: 'news_id' not found in query parameters''), db)
   \<and> createComment_news_id reply_comment = From_comment 2"
  by (simp add: handleCommentCreate_def createComment_news_id_def reply_comment_def)


end
